theory Spec2Isabelle
  imports Complex_Main "HOL-Library.Multiset"
begin

section \<open>The program: Christofides\_TSP.cpp\<close>

text \<open>
  Conventions of the embedding.
  \<^item> A \<open>double\<close> that is always finite (a coordinate, a matrix entry, a tour length) is a
    \<open>real\<close>; rounding is not modelled. The variables \<open>key[v]\<close> and \<open>best\<close>, which the
    source initialises with \<open>numeric_limits<double>::infinity()\<close>, have the type \<open>dbl\<close>.
  \<^item> A \<open>vector<int>\<close> that only ever holds vertex indices is a \<open>nat list\<close>. The three
    places where the source stores the sentinel \<open>-1\<close> (\<open>u\<close> and \<open>parent\<close> in
    \<open>primMST\<close>, \<open>bestj\<close> in \<open>addGreedyPerfectMatching\<close>) are of type \<open>int\<close>.
  \<^item> Indexing a vector with a value that is out of range is undefined behaviour in the
    source. Wherever the index is a stored vertex or a sentinel, the model returns
    \<open>None\<close> there. The matrix \<open>d\<close> is read with \<open>d ! u ! v\<close>; the theorems assume
    it is square, as \<open>buildDistanceMatrix\<close> makes it.
  \<^item> \<open>push_back\<close> appends at the end of a list, \<open>back\<close> is \<open>last\<close>, \<open>pop_back\<close> is
    \<open>butlast\<close>, and \<open>find\<close> followed by \<open>erase\<close> is \<open>remove1\<close>.
\<close>

subsection \<open>Points and distances\<close>

record Point =
  px :: real
  py :: real

definition distEuclid :: "Point \<Rightarrow> Point \<Rightarrow> real" where
  "distEuclid a b =
     (let dx = px a - px b; dy = py a - py b in sqrt (dx * dx + dy * dy))"

text \<open>
  The file system is the list of the files that can be opened, each with the sequence of
  points that the extraction loop \<open>in >> p.x >> p.y\<close> reads from it.
\<close>

type_synonym file_system = "(string \<times> Point list) list"

definition loadPoints :: "file_system \<Rightarrow> string \<Rightarrow> Point list \<Rightarrow> bool \<times> Point list" where
  "loadPoints fs filename points =
     (case map_of fs filename of
        None \<Rightarrow> (False, points)
      | Some ps \<Rightarrow> (points @ ps \<noteq> [], points @ ps))"

definition buildDistanceMatrix :: "Point list \<Rightarrow> real list list" where
  "buildDistanceMatrix pts =
     (let n = length pts
      in map (\<lambda>i. map (\<lambda>j. distEuclid (pts ! i) (pts ! j)) [0..<n]) [0..<n])"

definition tourLength :: "nat list \<Rightarrow> real list list \<Rightarrow> real" where
  "tourLength tour d =
     foldl (\<lambda>len i. len + d ! (tour ! i) ! (tour ! (i + 1))) 0 [0..<length tour - 1]"

subsection \<open>Prim's algorithm\<close>

datatype dbl = Finite real | PosInf

fun dbl_less :: "dbl \<Rightarrow> dbl \<Rightarrow> bool" where
  "dbl_less (Finite a) (Finite b) = (a < b)"
| "dbl_less (Finite a) PosInf = True"
| "dbl_less PosInf b = False"

text \<open>A loop whose body can hit undefined behaviour: it stops with \<open>None\<close>.\<close>

primrec fold_opt :: "('a \<Rightarrow> 's \<Rightarrow> 's option) \<Rightarrow> 'a list \<Rightarrow> 's \<Rightarrow> 's option" where
  "fold_opt f [] s = Some s"
| "fold_opt f (a # as) s = (case f a s of None \<Rightarrow> None | Some s' \<Rightarrow> fold_opt f as s')"

type_synonym prim_state = "dbl list \<times> int list \<times> bool list"

text \<open>
  The scan for the vertex of minimum key that is not in the tree (lines 79-86):
  \<open>prim_scan_step\<close> is the body of the loop over \<open>v\<close>.
\<close>

definition prim_scan_step :: "dbl list \<Rightarrow> bool list \<Rightarrow> nat \<Rightarrow> dbl \<times> int \<Rightarrow> dbl \<times> int" where
  "prim_scan_step key inMST v s =
     (case s of (best, u) \<Rightarrow>
        if \<not> inMST ! v \<and> dbl_less (key ! v) best then (key ! v, int v) else (best, u))"

definition prim_scan :: "nat \<Rightarrow> dbl list \<Rightarrow> bool list \<Rightarrow> dbl \<times> int" where
  "prim_scan n key inMST = fold (prim_scan_step key inMST) [0..<n] (PosInf, - 1)"

text \<open>
  The update of the keys after \<open>u\<close> has joined the tree (lines 91-96), with the body
  of its loop.
\<close>

definition prim_update_step ::
  "real list list \<Rightarrow> nat \<Rightarrow> bool list \<Rightarrow> nat \<Rightarrow> dbl list \<times> int list \<Rightarrow> dbl list \<times> int list" where
  "prim_update_step d u inMST v s =
     (case s of (key, parent) \<Rightarrow>
        if \<not> inMST ! v \<and> dbl_less (Finite (d ! u ! v)) (key ! v)
        then (key[v := Finite (d ! u ! v)], parent[v := int u])
        else (key, parent))"

definition prim_update ::
  "real list list \<Rightarrow> nat \<Rightarrow> nat \<Rightarrow> bool list \<Rightarrow> dbl list \<times> int list \<Rightarrow> dbl list \<times> int list" where
  "prim_update d n u inMST = fold (prim_update_step d u inMST) [0..<n]"

text \<open>One iteration of the outer loop; \<open>inMST[u]\<close> with \<open>u = -1\<close> is the failure.\<close>

definition prim_iter :: "real list list \<Rightarrow> nat \<Rightarrow> prim_state \<Rightarrow> prim_state option" where
  "prim_iter d n s =
     (case s of (key, parent, inMST) \<Rightarrow>
        (case prim_scan n key inMST of (best, u) \<Rightarrow>
           if u < 0 then None
           else (let inMST' = inMST[nat u := True]
                 in case prim_update d n (nat u) inMST' (key, parent) of
                      (key', parent') \<Rightarrow> Some (key', parent', inMST'))))"

primrec prim_loop :: "real list list \<Rightarrow> nat \<Rightarrow> nat \<Rightarrow> prim_state \<Rightarrow> prim_state option" where
  "prim_loop d n 0 s = Some s"
| "prim_loop d n (Suc k) s =
     (case prim_iter d n s of None \<Rightarrow> None | Some s' \<Rightarrow> prim_loop d n k s')"

definition prim_init :: "nat \<Rightarrow> prim_state" where
  "prim_init n = ((replicate n PosInf)[0 := Finite 0], replicate n (- 1), replicate n False)"

definition primMST :: "real list list \<Rightarrow> int list option" where
  "primMST d =
     (let n = length d
      in if n = 0 then None
         else (case prim_loop d n n (prim_init n) of
                 None \<Rightarrow> None
               | Some (key, parent, inMST) \<Rightarrow> Some parent))"

subsection \<open>From the parent array to the adjacency lists\<close>

definition buildAdjFromParent :: "int list \<Rightarrow> nat list list option" where
  "buildAdjFromParent parent =
     (let n = length parent
      in fold_opt
           (\<lambda>v adj.
              let p = parent ! v
              in if p < 0 \<or> int n \<le> p then None
                 else (let adj1 = adj[v := adj ! v @ [nat p]]
                       in Some (adj1[nat p := adj1 ! nat p @ [v]])))
           [1..<n] (replicate n []))"

definition findOddDegreeVertices :: "nat list list \<Rightarrow> nat list" where
  "findOddDegreeVertices adj =
     filter (\<lambda>i. length (adj ! i) mod 2 = 1) [0..<length adj]"

subsection \<open>Greedy matching of the odd vertices\<close>

text \<open>
  The scan for the closest unmatched partner of \<open>odd[i]\<close> (lines 140-152), with the
  body of its loop.
\<close>

definition match_scan_step ::
  "nat list \<Rightarrow> real list list \<Rightarrow> bool list \<Rightarrow> nat \<Rightarrow> nat \<Rightarrow> dbl \<times> int \<Rightarrow> dbl \<times> int" where
  "match_scan_step odds d used i j s =
     (case s of (best, bestj) \<Rightarrow>
        if \<not> used ! j \<and> dbl_less (Finite (d ! (odds ! i) ! (odds ! j))) best
        then (Finite (d ! (odds ! i) ! (odds ! j)), int j)
        else (best, bestj))"

definition match_scan :: "nat list \<Rightarrow> real list list \<Rightarrow> bool list \<Rightarrow> nat \<Rightarrow> dbl \<times> int" where
  "match_scan odds d used i =
     fold (match_scan_step odds d used i) [i + 1..<length odds] (PosInf, - 1)"

text \<open>
  One iteration of the outer loop (lines 137-164); \<open>used[bestj]\<close> with \<open>bestj = -1\<close> and
  \<open>adj[u]\<close>, \<open>adj[v]\<close> out of range are the failures.
\<close>

definition match_iter ::
  "nat list \<Rightarrow> real list list \<Rightarrow> nat \<Rightarrow> bool list \<times> nat list list
     \<Rightarrow> (bool list \<times> nat list list) option" where
  "match_iter odds d i s =
     (case s of (used, adj) \<Rightarrow>
        if used ! i then Some (used, adj)
        else (case match_scan odds d used i of (best, bestj) \<Rightarrow>
                if bestj < 0 then None
                else (let used' = used[i := True, nat bestj := True];
                          u = odds ! i;
                          v = odds ! nat bestj
                      in if length adj \<le> u \<or> length adj \<le> v then None
                         else (let adj1 = adj[u := adj ! u @ [v]]
                               in Some (used', adj1[v := adj1 ! v @ [u]])))))"

definition addGreedyPerfectMatching ::
  "nat list \<Rightarrow> real list list \<Rightarrow> nat list list \<Rightarrow> nat list list option" where
  "addGreedyPerfectMatching odds d adj =
     (let k = length odds
      in if k = 0 then Some adj
         else map_option snd
                (fold_opt (match_iter odds d) [0..<k] (replicate k False, adj)))"

subsection \<open>Hierholzer's algorithm\<close>

text \<open>
  The body of the loop of lines 175-197 on the state \<open>(adj, stack, circuit)\<close>; the
  back of the vector \<open>stack\<close> is the last element of the list. \<open>adj[u]\<close> and
  \<open>adj[v]\<close> out of range are the failures.
\<close>

type_synonym hierholzer_state = "nat list list \<times> nat list \<times> nat list"

definition hierholzer_step :: "hierholzer_state \<Rightarrow> hierholzer_state option" where
  "hierholzer_step s =
     (case s of (adj, stack, circuit) \<Rightarrow>
        (let u = last stack
         in if length adj \<le> u then None
            else if adj ! u \<noteq> []
            then (let v = last (adj ! u);
                      adj1 = adj[u := butlast (adj ! u)]
                  in if length adj \<le> v then None
                     else Some (adj1[v := remove1 u (adj1 ! v)], stack @ [v], circuit))
            else Some (adj, butlast stack, circuit @ [u])))"

text \<open>
  The quantity that every iteration of the loop decreases: twice the number of entries
  of all neighbour lists, plus the size of the stack.
\<close>

definition hierholzer_measure :: "hierholzer_state \<Rightarrow> nat" where
  "hierholzer_measure s =
     (case s of (adj, stack, circuit) \<Rightarrow> 2 * sum_list (map length adj) + length stack)"

function hierholzer_loop :: "hierholzer_state \<Rightarrow> nat list option" where
  "hierholzer_loop (adj, stack, circuit) =
     (if stack = [] then Some circuit
      else (case hierholzer_step (adj, stack, circuit) of
              None \<Rightarrow> None
            | Some s' \<Rightarrow> hierholzer_loop s'))"
  by pat_completeness auto

termination hierholzer_loop
proof (relation "measure hierholzer_measure")
  show "wf (measure hierholzer_measure)" by simp
next
  fix adj :: "nat list list" and stack circuit :: "nat list" and s'
  assume st: "stack \<noteq> []" and step: "hierholzer_step (adj, stack, circuit) = Some s'"
  define u where "u = last stack"
  have ur: "u < length adj"
    using step by (auto simp: hierholzer_step_def u_def Let_def split: if_splits)
  show "(s', (adj, stack, circuit)) \<in> measure hierholzer_measure"
  proof (cases "adj ! u = []")
    case True
    then have "s' = (adj, butlast stack, circuit @ [u])"
      using step ur by (simp add: hierholzer_step_def u_def Let_def)
    then show ?thesis
      using st by (cases stack rule: rev_cases) (simp_all add: hierholzer_measure_def)
  next
    case False
    define v where "v = last (adj ! u)"
    define adj1 where "adj1 = adj[u := butlast (adj ! u)]"
    have vr: "v < length adj"
      using step ur False
      by (auto simp: hierholzer_step_def u_def v_def Let_def split: if_splits)
    have s': "s' = (adj1[v := remove1 u (adj1 ! v)], stack @ [v], circuit)"
      using step ur vr False by (simp add: hierholzer_step_def u_def v_def adj1_def Let_def)
    have s1: "sum_list (map length adj1) + 1 = sum_list (map length adj)"
    proof -
      have "length (adj ! u) \<le> sum_list (map length adj)"
        using ur by (simp add: member_le_sum_list)
      moreover have "length (adj ! u) \<ge> 1" using False by (cases "adj ! u") auto
      ultimately show ?thesis using ur
        by (simp add: adj1_def map_update sum_list_update)
    qed
    have s2: "sum_list (map length (adj1[v := remove1 u (adj1 ! v)])) \<le> sum_list (map length adj1)"
    proof -
      have lv: "v < length adj1" using vr by (simp add: adj1_def)
      have "length (remove1 u (adj1 ! v)) \<le> length (adj1 ! v)"
        by (simp add: length_remove1)
      moreover have "length (adj1 ! v) \<le> sum_list (map length adj1)"
        using lv by (simp add: member_le_sum_list)
      ultimately show ?thesis using lv
        by (simp add: map_update sum_list_update)
    qed
    show ?thesis
      using s1 s2 by (simp add: s' hierholzer_measure_def)
  qed
qed

definition eulerianTourHierholzer :: "nat \<Rightarrow> nat list list \<Rightarrow> nat list option" where
  "eulerianTourHierholzer start adj = map_option rev (hierholzer_loop (adj, [start], []))"

subsection \<open>Shortcutting and the whole pipeline\<close>

text \<open>The loop of lines 227-232; \<open>visited[v]\<close> out of range is the failure.\<close>

definition shortcut_step :: "nat \<Rightarrow> bool list \<times> nat list \<Rightarrow> (bool list \<times> nat list) option" where
  "shortcut_step v s =
     (case s of (visited, tour) \<Rightarrow>
        if length visited \<le> v then None
        else if \<not> visited ! v then Some (visited[v := True], tour @ [v])
        else Some (visited, tour))"

text \<open>
  Lines 235-238: \<open>find\<close> returns the position of the first \<open>0\<close>, and \<open>rotate\<close> makes it
  the first element.
\<close>

definition rotate_to_zero :: "nat list \<Rightarrow> nat list" where
  "rotate_to_zero tour =
     (let it0 = length (takeWhile (\<lambda>v. v \<noteq> 0) tour)
      in if it0 \<noteq> 0 \<and> it0 \<noteq> length tour then drop it0 tour @ take it0 tour else tour)"

text \<open>Lines 222-243 of \<open>christofidesTour\<close>: from the Eulerian circuit to the closed tour.\<close>

definition shortcutTour :: "nat \<Rightarrow> nat list \<Rightarrow> nat list option" where
  "shortcutTour n euler =
     (case fold_opt shortcut_step euler (replicate n False, []) of
        None \<Rightarrow> None
      | Some (visited, tour) \<Rightarrow> Some (rotate_to_zero tour @ [0]))"

definition christofidesTour :: "real list list \<Rightarrow> nat list option" where
  "christofidesTour d =
     (let n = length d
      in case primMST d of
           None \<Rightarrow> None
         | Some parent \<Rightarrow>
             (case buildAdjFromParent parent of
                None \<Rightarrow> None
              | Some adj \<Rightarrow>
                  (let odds = findOddDegreeVertices adj
                   in case addGreedyPerfectMatching odds d adj of
                        None \<Rightarrow> None
                      | Some adj' \<Rightarrow>
                          (case eulerianTourHierholzer 0 adj' of
                             None \<Rightarrow> None
                           | Some euler \<Rightarrow> shortcutTour n euler))))"

subsection \<open>The command line program\<close>

datatype out_item = Text string | Number real | Index nat | Newline

record outcome =
  exit_code :: int
  stdout :: "out_item list"
  stderr :: "out_item list"
  calls :: "string list"

text \<open>The tour printed with its arrows (lines 331-334).\<close>

fun print_tour :: "nat list \<Rightarrow> out_item list" where
  "print_tour [] = []"
| "print_tour [v] = [Index v]"
| "print_tour (v # w # vs) = Index v # Text '' -> '' # print_tour (w # vs)"

text \<open>
  \<open>main\<close>, with \<open>args\<close> the vector \<open>argv\<close>. The field \<open>calls\<close> records the
  functions of the file that \<open>main\<close> has called, in order. The picture that
  \<open>writeSolutionSVG\<close> draws is not modelled; \<open>None\<close> is undefined behaviour in
  \<open>christofidesTour\<close>.
\<close>

definition main :: "string list \<Rightarrow> file_system \<Rightarrow> outcome option" where
  "main args fs =
     (if length args < 2
      then Some \<lparr>exit_code = 1,
                 stdout = [Text ''Usage: ./christofides <points_file.txt>'', Newline],
                 stderr = [], calls = []\<rparr>
      else (let filename = args ! 1
            in case loadPoints fs filename [] of (ok, points) \<Rightarrow>
              if \<not> ok
              then Some \<lparr>exit_code = 1, stdout = [],
                         stderr = [Text ''Error: could not read points from '', Text filename, Newline],
                         calls = [''loadPoints'']\<rparr>
              else if length points = 1
              then Some \<lparr>exit_code = 0,
                         stdout = [Text ''Only 1 city. Tour length = 0'', Newline],
                         stderr = [], calls = [''loadPoints'']\<rparr>
              else (let d = buildDistanceMatrix points
                    in case christofidesTour d of
                         None \<Rightarrow> None
                       | Some tour \<Rightarrow>
                           Some \<lparr>exit_code = 0,
                                 stdout = [Text ''Christofides-style Tour Length: '',
                                           Number (tourLength tour d), Newline,
                                           Text ''Tour order: ''] @ print_tour tour @
                                          [Newline,
                                           Text ''Enter original gridSize used to generate '',
                                           Text filename, Text '': ''],
                                 stderr = [],
                                 calls = [''loadPoints'', ''buildDistanceMatrix'',
                                          ''christofidesTour'', ''tourLength'',
                                          ''writeSolutionSVG'']\<rparr>)))"

section \<open>Vocabulary of the specification\<close>

subsection \<open>The unit square of the concrete scenario\<close>

definition unit_square :: "Point list" where
  "unit_square =
     [\<lparr>px = 0, py = 0\<rparr>, \<lparr>px = 0, py = 1\<rparr>, \<lparr>px = 1, py = 1\<rparr>, \<lparr>px = 1, py = 0\<rparr>]"

definition unit_square_matrix :: "real list list" where
  "unit_square_matrix =
     [[0, 1, sqrt 2, 1], [1, 0, 1, sqrt 2], [sqrt 2, 1, 0, 1], [1, sqrt 2, 1, 0]]"

subsection \<open>Indices in range\<close>

text \<open>Every stored neighbour, and every vertex on the stack, is an index of \<open>adj\<close>.\<close>

definition adj_in_range :: "nat list list \<Rightarrow> bool" where
  "adj_in_range adj = (\<forall>xs \<in> set adj. \<forall>v \<in> set xs. v < length adj)"

definition stack_in_range :: "nat list list \<Rightarrow> nat list \<Rightarrow> bool" where
  "stack_in_range adj stack = (\<forall>v \<in> set stack. v < length adj)"

subsection \<open>Matrices\<close>

definition square_matrix :: "nat \<Rightarrow> real list list \<Rightarrow> bool" where
  "square_matrix n d = (length d = n \<and> (\<forall>row \<in> set d. length row = n))"

subsection \<open>The invariant of Prim's outer loop\<close>

text \<open>
  After \<open>k\<close> iterations: \<open>k\<close> vertices are in the tree; vertex 0 is the first to
  join and keeps the parent \<open>-1\<close>; every other vertex \<open>v\<close> has a parent \<open>p\<close> in the
  tree with \<open>key[v] = d[p][v]\<close>, which for a vertex outside the tree is the least
  distance from the tree to \<open>v\<close>; and the vertices of the tree can be ranked (by the
  iteration in which they joined) so that every parent has a smaller rank than its child.
\<close>

definition prim_inv :: "real list list \<Rightarrow> nat \<Rightarrow> nat \<Rightarrow> prim_state \<Rightarrow> bool" where
  "prim_inv d n k s =
     (case s of (key, parent, inMST) \<Rightarrow>
        length key = n \<and> length parent = n \<and> length inMST = n \<and>
        card {v. v < n \<and> inMST ! v} = k \<and>
        parent ! 0 = - 1 \<and>
        (k = 0 \<longrightarrow> key ! 0 = Finite 0 \<and> (\<forall>v < n. v \<noteq> 0 \<longrightarrow> key ! v = PosInf)) \<and>
        (0 < k \<longrightarrow> inMST ! 0 \<and>
           (\<forall>v < n. v \<noteq> 0 \<longrightarrow>
              (\<exists>p < n. parent ! v = int p \<and> inMST ! p \<and> key ! v = Finite (d ! p ! v) \<and>
                 (\<not> inMST ! v \<longrightarrow> (\<forall>s < n. inMST ! s \<longrightarrow> d ! p ! v \<le> d ! s ! v))))) \<and>
        (\<exists>r :: nat \<Rightarrow> nat.
           (\<forall>v < n. inMST ! v \<longrightarrow> r v < k) \<and>
           (\<forall>v < n. inMST ! v \<longrightarrow> v \<noteq> 0 \<longrightarrow> r (nat (parent ! v)) < r v)))"

subsection \<open>Undirected graphs on the vertices \<open>0, ..., n - 1\<close>\<close>

text \<open>
  An edge set is a set of pairs of vertices; the pair \<open>(u, v)\<close> is the undirected edge
  between \<open>u\<close> and \<open>v\<close>, so adjacency is the symmetric closure \<open>und T\<close>.
\<close>

definition und :: "(nat \<times> nat) set \<Rightarrow> (nat \<times> nat) set" where
  "und T = T \<union> T\<inverse>"

definition connected_graph :: "nat \<Rightarrow> (nat \<times> nat) set \<Rightarrow> bool" where
  "connected_graph n T = (\<forall>u < n. \<forall>v < n. (u, v) \<in> (und T)\<^sup>*)"

text \<open>
  A cycle: at least three distinct vertices, each adjacent to the next, and the last
  one adjacent to the first.
\<close>

definition is_cycle :: "(nat \<times> nat) set \<Rightarrow> nat list \<Rightarrow> bool" where
  "is_cycle T c =
     (3 \<le> length c \<and> distinct c \<and>
      (\<forall>i < length c. (c ! i, c ! ((i + 1) mod length c)) \<in> und T))"

definition forest :: "(nat \<times> nat) set \<Rightarrow> bool" where
  "forest T = (\<forall>c. \<not> is_cycle T c)"

definition spanning_tree :: "nat \<Rightarrow> (nat \<times> nat) set \<Rightarrow> bool" where
  "spanning_tree n T =
     (T \<subseteq> {..<n} \<times> {..<n} \<and> card T = n - 1 \<and> connected_graph n T \<and> forest T)"

definition weight :: "real list list \<Rightarrow> (nat \<times> nat) set \<Rightarrow> real" where
  "weight d T = (\<Sum>(u, v) \<in> T. d ! u ! v)"

definition symmetric_matrix :: "nat \<Rightarrow> real list list \<Rightarrow> bool" where
  "symmetric_matrix n d = (\<forall>i < n. \<forall>j < n. d ! i ! j = d ! j ! i)"

text \<open>The edges \<open>(v, parent[v])\<close> for \<open>v = 1, ..., n - 1\<close> of a parent array.\<close>

definition tree_edges :: "int list \<Rightarrow> (nat \<times> nat) set" where
  "tree_edges parent = (\<lambda>v. (v, nat (parent ! v))) ` {1..<length parent}"

subsection \<open>Prim's algorithm and minimum spanning trees\<close>

text \<open>The tree edges that \<open>primMST\<close> has fixed so far: those of the vertices in the tree.\<close>

definition prim_edges :: "nat \<Rightarrow> int list \<Rightarrow> bool list \<Rightarrow> (nat \<times> nat) set" where
  "prim_edges n parent inMST = {(v, nat (parent ! v)) | v. v < n \<and> v \<noteq> 0 \<and> inMST ! v}"

text \<open>
  An edge set \<open>F\<close> can be extended to a minimum spanning tree: whatever \<open>n - 1\<close> edges
  \<open>T\<close> connect the \<open>n\<close> vertices, some \<open>n - 1\<close> edges that connect them contain \<open>F\<close>
  and weigh no more than \<open>T\<close>.
\<close>

definition mst_extendable :: "real list list \<Rightarrow> nat \<Rightarrow> (nat \<times> nat) set \<Rightarrow> bool" where
  "mst_extendable d n F =
     (\<forall>T. T \<subseteq> {..<n} \<times> {..<n} \<and> card T = n - 1 \<and> connected_graph n T \<longrightarrow>
          (\<exists>T'. T' \<subseteq> {..<n} \<times> {..<n} \<and> card T' = n - 1 \<and> connected_graph n T' \<and>
                F \<subseteq> T' \<and> weight d T' \<le> weight d T))"

subsection \<open>Adjacency lists as multigraphs\<close>

text \<open>
  An adjacency structure is symmetric when \<open>v\<close> occurs in the list of \<open>u\<close> as often as
  \<open>u\<close> occurs in the list of \<open>v\<close>.
\<close>

definition symmetric_adj :: "nat list list \<Rightarrow> bool" where
  "symmetric_adj adj =
     (\<forall>u < length adj. \<forall>v < length adj. count_list (adj ! u) v = count_list (adj ! v) u)"

subsection \<open>Multigraphs given by a list of edges\<close>

text \<open>
  A multigraph given by a list of edges: \<open>push_edge\<close> stores the edge \<open>(u, v)\<close> at both
  endpoints, as \<open>adj[u].push_back(v); adj[v].push_back(u)\<close> does, and \<open>edge_nbrs E x\<close>
  are the neighbours of \<open>x\<close> along the edges of \<open>E\<close>, one for each edge instance.
\<close>

definition push_edge :: "nat list list \<Rightarrow> nat \<times> nat \<Rightarrow> nat list list" where
  "push_edge adj e =
     (case e of (u, v) \<Rightarrow> (let adj1 = adj[u := adj ! u @ [v]] in adj1[v := adj1 ! v @ [u]]))"

definition add_edges :: "nat list list \<Rightarrow> (nat \<times> nat) list \<Rightarrow> nat list list" where
  "add_edges adj E = foldl push_edge adj E"

definition edge_nbrs :: "(nat \<times> nat) list \<Rightarrow> nat \<Rightarrow> nat multiset" where
  "edge_nbrs E x =
     mset (map snd (filter (\<lambda>e. fst e = x) E)) + mset (map fst (filter (\<lambda>e. snd e = x) E))"

text \<open>The edges \<open>(v, parent[v])\<close> in the order in which \<open>buildAdjFromParent\<close> adds them.\<close>

definition tree_edge_list :: "int list \<Rightarrow> (nat \<times> nat) list" where
  "tree_edge_list parent = map (\<lambda>v. (v, nat (parent ! v))) [1..<length parent]"

subsection \<open>Walks and the invariant of Hierholzer's loop\<close>

text \<open>The consecutive pairs of a walk.\<close>

definition arcs :: "nat list \<Rightarrow> (nat \<times> nat) list" where
  "arcs w = zip w (tl w)"

text \<open>
  The stored entries of an adjacency structure, as pairs \<open>(u, v)\<close> with \<open>v\<close> in the list
  of \<open>u\<close>: every edge instance between \<open>u\<close> and \<open>v\<close> is there twice, as \<open>(u, v)\<close> and
  as \<open>(v, u)\<close>.
\<close>

definition adj_arcs :: "nat list list \<Rightarrow> (nat \<times> nat) list" where
  "adj_arcs adj = concat (map (\<lambda>u. map (Pair u) (adj ! u)) [0..<length adj])"

text \<open>
  The invariant, for the multigraph \<open>G\<close> the loop started with. The remaining adjacency
  is symmetric and without loops; the vertices of the circuit have no edge left; the
  edges of \<open>G\<close> are the remaining ones, those along the stack, those along the circuit
  (read backwards), and one edge from some vertex \<open>a\<close> to the vertex popped last; and the
  vertices of odd remaining degree are \<open>a\<close> and the top of the stack, if these differ.
\<close>

definition hierholzer_inv :: "nat list list \<Rightarrow> nat \<Rightarrow> nat \<Rightarrow> hierholzer_state \<Rightarrow> bool" where
  "hierholzer_inv G start a s =
     (case s of (adj, stack, circuit) \<Rightarrow>
        length adj = length G \<and> adj_in_range adj \<and> stack_in_range adj stack \<and>
        symmetric_adj adj \<and> (\<forall>x < length adj. x \<notin> set (adj ! x)) \<and>
        (\<forall>x \<in> set circuit. x < length adj \<and> adj ! x = []) \<and>
        (stack \<noteq> [] \<longrightarrow> hd stack = start) \<and>
        (circuit = [] \<longrightarrow> a = start \<and> stack \<noteq> []) \<and>
        (circuit \<noteq> [] \<longrightarrow> hd circuit = start) \<and>
        (stack = [] \<longrightarrow> last circuit = start) \<and>
        (stack \<noteq> [] \<longrightarrow>
           (\<forall>x < length adj. odd (length (adj ! x)) \<longleftrightarrow> (x = a) \<noteq> (x = last stack))) \<and>
        (\<forall>x < length adj.
           mset (G ! x) =
             mset (adj ! x) + edge_nbrs (arcs stack) x + edge_nbrs (arcs (rev circuit)) x +
             edge_nbrs (if circuit = [] \<or> stack = [] then [] else [(a, last circuit)]) x))"

subsection \<open>Reachability in an adjacency structure\<close>

text \<open>The vertices that can be reached from \<open>start\<close> along stored entries.\<close>

definition adj_reachable :: "nat list list \<Rightarrow> nat \<Rightarrow> nat \<Rightarrow> bool" where
  "adj_reachable adj start x \<longleftrightarrow> (start, x) \<in> {(u, v). u < length adj \<and> v \<in> set (adj ! u)}\<^sup>*"

subsection \<open>Shortcutting\<close>

text \<open>
  The vertices of a walk in the order of their first visit; \<open>V\<close> are the vertices that
  have been visited before.
\<close>

fun first_visits :: "nat set \<Rightarrow> nat list \<Rightarrow> nat list" where
  "first_visits V [] = []"
| "first_visits V (x # xs) =
     (if x \<in> V then first_visits V xs else x # first_visits (insert x V) xs)"


definition triangle_inequality :: "nat \<Rightarrow> real list list \<Rightarrow> bool" where
  "triangle_inequality n d = (\<forall>i < n. \<forall>j < n. \<forall>k < n. d ! i ! k \<le> d ! i ! j + d ! j ! k)"

definition zero_diagonal :: "nat \<Rightarrow> real list list \<Rightarrow> bool" where
  "zero_diagonal n d = (\<forall>i < n. d ! i ! i = 0)"


section \<open>Properties\<close>

lemma fold_opt_append:
  "fold_opt f (as @ bs) s = (case fold_opt f as s of None \<Rightarrow> None | Some s' \<Rightarrow> fold_opt f bs s')"
  by (induction as arbitrary: s) (auto split: option.splits)


subsection \<open>The pipeline on the unit square\<close>

lemma upt_0_4: "[0..<4] = [0, 1, 2, 3]"
  by (simp add: upt_rec)

lemma upt_1_4: "[1..<4] = [1, 2, 3]"
  by (simp add: upt_rec)

lemma length_unit_square_matrix: "length unit_square_matrix = 4"
  by (simp add: unit_square_matrix_def)

lemma buildDistanceMatrix_unit_square: "buildDistanceMatrix unit_square = unit_square_matrix"
  by (simp add: buildDistanceMatrix_def unit_square_def upt_0_4 distEuclid_def
      unit_square_matrix_def)

lemma primMST_unit_square: "primMST unit_square_matrix = Some [- 1, 0, 1, 0]"
  by (simp add: unit_square_matrix_def primMST_def prim_init_def prim_iter_def prim_scan_def
      prim_scan_step_def prim_update_def prim_update_step_def upt_0_4 eval_nat_numeral)

lemma buildAdj_unit_square: "buildAdjFromParent [- 1, 0, 1, 0] = Some [[1, 3], [0, 2], [1], [0]]"
  by (simp add: buildAdjFromParent_def upt_1_4)

lemma findOdd_unit_square: "findOddDegreeVertices [[1, 3], [0, 2], [1], [0]] = [2, 3]"
  by (simp add: findOddDegreeVertices_def upt_0_4)

lemma matching_unit_square:
  "addGreedyPerfectMatching [2, 3] unit_square_matrix [[1, 3], [0, 2], [1], [0]] =
     Some [[1, 3], [0, 2], [1, 3], [0, 2]]"
  by (simp add: addGreedyPerfectMatching_def match_iter_def match_scan_def match_scan_step_def
      unit_square_matrix_def upt_rec[of 0 2] upt_rec[of 1 2] upt_rec[of 2 2] eval_nat_numeral)

lemma euler_unit_square:
  "eulerianTourHierholzer 0 [[1, 3], [0, 2], [1, 3], [0, 2]] = Some [0, 3, 2, 1, 0]"
  by (simp add: eulerianTourHierholzer_def hierholzer_step_def)

lemma shortcut_unit_square: "shortcutTour 4 [0, 3, 2, 1, 0] = Some [0, 3, 2, 1, 0]"
  by (simp add: shortcutTour_def shortcut_step_def rotate_to_zero_def eval_nat_numeral)

lemma christofidesTour_unit_square: "christofidesTour unit_square_matrix = Some [0, 3, 2, 1, 0]"
  using primMST_unit_square buildAdj_unit_square findOdd_unit_square matching_unit_square
    euler_unit_square shortcut_unit_square
  by (simp add: christofidesTour_def length_unit_square_matrix)

lemma tourLength_unit_square: "tourLength [0, 3, 2, 1, 0] unit_square_matrix = 4"
  by (simp add: tourLength_def upt_0_4 unit_square_matrix_def eval_nat_numeral)

text \<open>
  Claim C7. For the four points (0,0), (0,1), (1,1), (1,0) the pipeline (distance matrix,
  spanning tree, parity, greedy matching, Eulerian circuit, shortcutting) returns the tour
  0, 3, 2, 1, 0, and the length that \<open>tourLength\<close> gives for it is 4, the perimeter
  of the unit square. (The matrix entries are 0, 1 and the square root of 2; the four
  edges of the tour have length 1.)
\<close>

theorem C7_unit_square_tour_length:
  "christofidesTour (buildDistanceMatrix unit_square) = Some [0, 3, 2, 1, 0] \<and>
   tourLength [0, 3, 2, 1, 0] (buildDistanceMatrix unit_square) = 4"
  using christofidesTour_unit_square tourLength_unit_square
  by (simp add: buildDistanceMatrix_unit_square)

subsection \<open>Fewer than two points\<close>

text \<open>
  Claim C8, as the program has it. When the file yields exactly one point, \<open>main\<close>
  returns before any stage of the pipeline is called (only \<open>loadPoints\<close> has run),
  prints the trivial result with tour length 0 and exits with code 0. When the file
  yields no point, \<open>loadPoints\<close> returns false and \<open>main\<close> reports an error and
  exits with code 1; no stage of the pipeline is called in that case either.
\<close>

theorem C8_fewer_than_two_points:
  assumes "map_of fs filename = Some pts" and "length pts < 2"
  shows "main (prog # filename # rest) fs =
           Some (if pts = []
                 then \<lparr>exit_code = 1, stdout = [],
                       stderr = [Text ''Error: could not read points from '', Text filename,
                                 Newline],
                       calls = [''loadPoints'']\<rparr>
                 else \<lparr>exit_code = 0,
                       stdout = [Text ''Only 1 city. Tour length = 0'', Newline],
                       stderr = [], calls = [''loadPoints'']\<rparr>)"
proof (cases pts)
  case Nil
  with assms show ?thesis by (simp add: main_def loadPoints_def)
next
  case (Cons p ps)
  with assms have "ps = []" by simp
  with Cons assms show ?thesis by (simp add: main_def loadPoints_def)
qed

theorem C8_witness:
  "main [''christofides'', ''one.txt''] [(''one.txt'', [\<lparr>px = 3, py = 4\<rparr>])] =
     Some \<lparr>exit_code = 0, stdout = [Text ''Only 1 city. Tour length = 0'', Newline],
           stderr = [], calls = [''loadPoints'']\<rparr>"
  using C8_fewer_than_two_points
    [of "[(''one.txt'', [\<lparr>px = 3, py = 4\<rparr>])]" "''one.txt''" "[\<lparr>px = 3, py = 4\<rparr>]"
        "''christofides''" "[]"]
  by simp

theorem C8_counterexample:
  "length ([] :: Point list) < 2 \<and>
   map_option exit_code (main [''christofides'', ''empty.txt''] [(''empty.txt'', [])]) = Some 1"
  by (simp add: main_def loadPoints_def)

subsection \<open>Hierholzer's loop: no index out of range, and the measure\<close>

lemma adj_in_range_update:
  assumes "adj_in_range adj" and "set xs \<subseteq> set (adj ! u)" and "u < length adj"
  shows "adj_in_range (adj[u := xs])"
proof -
  have "set (adj ! u) \<subseteq> {v. v < length adj}"
    using assms(1,3) by (auto simp: adj_in_range_def)
  then show ?thesis
    using assms by (auto simp: adj_in_range_def dest!: set_update_subset_insert[THEN subsetD])
qed

lemma hierholzer_step_in_range:
  assumes "adj_in_range adj" and "stack_in_range adj stack" and "stack \<noteq> []"
  shows "\<exists>adj' stack' circuit'.
           hierholzer_step (adj, stack, circuit) = Some (adj', stack', circuit') \<and>
           length adj' = length adj \<and> adj_in_range adj' \<and> stack_in_range adj' stack'"
proof -
  define u where "u = last stack"
  have ur: "u < length adj"
    using assms(2,3) by (simp add: u_def stack_in_range_def)
  show ?thesis
  proof (cases "adj ! u = []")
    case True
    have "set (butlast stack) \<subseteq> set stack" by (meson in_set_butlastD subsetI)
    then have "stack_in_range adj (butlast stack)"
      using assms(2) by (auto simp: stack_in_range_def)
    then show ?thesis
      using True ur assms(1) by (simp add: hierholzer_step_def u_def[symmetric])
  next
    case False
    define v where "v = last (adj ! u)"
    define adj1 where "adj1 = adj[u := butlast (adj ! u)]"
    have "v \<in> set (adj ! u)" using False by (simp add: v_def)
    then have vr: "v < length adj"
      using assms(1) ur by (auto simp: adj_in_range_def)
    have l1: "length adj1 = length adj" by (simp add: adj1_def)
    have r1: "adj_in_range adj1"
      unfolding adj1_def using assms(1) ur
      by (intro adj_in_range_update) (auto dest: in_set_butlastD)
    have r2: "adj_in_range (adj1[v := remove1 u (adj1 ! v)])"
      using r1 vr l1 by (intro adj_in_range_update) (use set_remove1_subset in fastforce)+
    have r3: "stack_in_range (adj1[v := remove1 u (adj1 ! v)]) (stack @ [v])"
      using assms(2) vr by (auto simp: stack_in_range_def adj1_def)
    have "hierholzer_step (adj, stack, circuit) =
            Some (adj1[v := remove1 u (adj1 ! v)], stack @ [v], circuit)"
      using False ur vr
      by (simp add: hierholzer_step_def u_def[symmetric] v_def[symmetric] adj1_def[symmetric] Let_def)
    then show ?thesis using r2 r3 by (simp add: adj1_def)
  qed
qed


lemma sum_length_update:
  assumes "u < length adj"
  shows "sum_list (map length (adj[u := xs])) + length (adj ! u) =
           sum_list (map length adj) + length xs"
proof -
  have "length (adj ! u) \<le> sum_list (map length adj)"
    using assms by (simp add: member_le_sum_list)
  then show ?thesis using assms
    by (simp add: map_update sum_list_update)
qed

lemma hierholzer_step_cases:
  assumes "stack \<noteq> []"
    and "hierholzer_step (adj, stack, circuit) = Some (adj1, stack1, circuit1)"
  shows "(sum_list (map length adj1) < sum_list (map length adj) \<and>
            length stack1 = length stack + 1 \<and> circuit1 = circuit) \<or>
         (adj1 = adj \<and> length stack1 + 1 = length stack \<and>
            circuit1 = circuit @ [last stack])"
proof -
  define u where "u = last stack"
  have ur: "u < length adj"
    using assms(2) by (auto simp: hierholzer_step_def u_def Let_def split: if_splits)
  show ?thesis
  proof (cases "adj ! u = []")
    case True
    then have "(adj1, stack1, circuit1) = (adj, butlast stack, circuit @ [u])"
      using assms(2) ur by (simp add: hierholzer_step_def u_def Let_def)
    then show ?thesis
      using assms(1) by (cases stack rule: rev_cases) (simp_all add: u_def)
  next
    case False
    define v where "v = last (adj ! u)"
    define adj2 where "adj2 = adj[u := butlast (adj ! u)]"
    have vr: "v < length adj"
      using assms(2) ur False
      by (auto simp: hierholzer_step_def u_def v_def Let_def split: if_splits)
    have s': "(adj1, stack1, circuit1) = (adj2[v := remove1 u (adj2 ! v)], stack @ [v], circuit)"
      using assms(2) ur vr False
      by (simp add: hierholzer_step_def u_def v_def adj2_def Let_def)
    have "length (adj ! u) \<ge> 1" using False by (cases "adj ! u") auto
    then have s1: "sum_list (map length adj2) + 1 = sum_list (map length adj)"
      using sum_length_update[OF ur, of "butlast (adj ! u)"] by (simp add: adj2_def)
    have lv: "v < length adj2" using vr by (simp add: adj2_def)
    have "length (remove1 u (adj2 ! v)) \<le> length (adj2 ! v)"
      by (simp add: length_remove1)
    then have s2: "sum_list (map length (adj2[v := remove1 u (adj2 ! v)])) \<le>
        sum_list (map length adj2)"
      using sum_length_update[OF lv, of "remove1 u (adj2 ! v)"] by simp
    show ?thesis
      using s1 s2 s' by simp
  qed
qed

lemma hierholzer_step_decreases:
  assumes "stack \<noteq> []" and "hierholzer_step (adj, stack, circuit) = Some s'"
  shows "hierholzer_measure s' < hierholzer_measure (adj, stack, circuit)"
proof -
  obtain adj1 stack1 circuit1 where s': "s' = (adj1, stack1, circuit1)"
    by (cases s') auto
  from hierholzer_step_cases[OF assms(1) assms(2)[unfolded s']]
  show ?thesis unfolding s' hierholzer_measure_def by auto
qed

lemma hierholzer_loop_in_range:
  "adj_in_range adj \<Longrightarrow> stack_in_range adj stack \<Longrightarrow>
     \<exists>c. hierholzer_loop (adj, stack, circuit) = Some c"
proof (induction "(adj, stack, circuit)" arbitrary: adj stack circuit rule: hierholzer_loop.induct)
  case (1 adj stack circuit)
  show ?case
  proof (cases "stack = []")
    case True
    then show ?thesis by simp
  next
    case False
    from hierholzer_step_in_range[OF "1.prems" False, of circuit]
    obtain adj' stack' circuit' where
      st: "hierholzer_step (adj, stack, circuit) = Some (adj', stack', circuit')"
      and r: "adj_in_range adj'" "stack_in_range adj' stack'" by blast
    from "1.hyps"[OF False st r] show ?thesis
      using False st by simp
  qed
qed

text \<open>
  Claim C9. \<open>hierholzer_loop\<close> is a total function, and the measure of its termination
  is 2 * (sum of the lengths of all neighbour lists) + (size of the stack). On every
  adjacency structure whose stored neighbour indices and start vertex are in range, not
  only on connected multigraphs of even degree, \<open>eulerianTourHierholzer\<close> returns a
  circuit (no index is out of range on the way). Every iteration of the loop from a
  state in range with a stack that is not empty is defined; it either removes at least
  one entry of the neighbour lists and pushes one element on the stack, or it leaves the
  neighbour lists as they are and pops one element; and it strictly decreases the
  measure.
\<close>

theorem C9_hierholzer_terminates:
  assumes "adj_in_range adj" and "start < length adj"
  shows "(\<exists>circuit. eulerianTourHierholzer start adj = Some circuit) \<and>
         (\<forall>adj' stack circuit.
            adj_in_range adj' \<and> stack_in_range adj' stack \<and> stack \<noteq> [] \<longrightarrow>
            (\<exists>adj1 stack1 circuit1.
               hierholzer_step (adj', stack, circuit) = Some (adj1, stack1, circuit1) \<and>
               (sum_list (map length adj1) < sum_list (map length adj') \<and>
                  length stack1 = length stack + 1 \<or>
                adj1 = adj' \<and> length stack1 + 1 = length stack) \<and>
               hierholzer_measure (adj1, stack1, circuit1) <
                 hierholzer_measure (adj', stack, circuit)))"
proof (intro conjI allI impI)
  have "stack_in_range adj [start]"
    using assms(2) by (simp add: stack_in_range_def)
  from hierholzer_loop_in_range[OF assms(1) this, of "[]"]
  show "\<exists>circuit. eulerianTourHierholzer start adj = Some circuit"
    by (auto simp: eulerianTourHierholzer_def)
next
  fix adj' stack circuit
  assume a: "adj_in_range adj' \<and> stack_in_range adj' stack \<and> stack \<noteq> []"
  then have ne: "stack \<noteq> []" by simp
  from a obtain s' where s: "hierholzer_step (adj', stack, circuit) = Some s'"
    using hierholzer_step_in_range[of adj' stack circuit] by blast
  obtain adj1 stack1 circuit1 where s': "s' = (adj1, stack1, circuit1)"
    by (cases s') auto
  note st = s[unfolded s']
  from hierholzer_step_cases[OF ne st]
  have c: "sum_list (map length adj1) < sum_list (map length adj') \<and>
             length stack1 = length stack + 1 \<or>
           adj1 = adj' \<and> length stack1 + 1 = length stack"
    by blast
  have m: "hierholzer_measure (adj1, stack1, circuit1) <
             hierholzer_measure (adj', stack, circuit)"
    using hierholzer_step_decreases[OF ne st] .
  show "\<exists>adj1 stack1 circuit1.
               hierholzer_step (adj', stack, circuit) = Some (adj1, stack1, circuit1) \<and>
               (sum_list (map length adj1) < sum_list (map length adj') \<and>
                  length stack1 = length stack + 1 \<or>
                adj1 = adj' \<and> length stack1 + 1 = length stack) \<and>
               hierholzer_measure (adj1, stack1, circuit1) <
                 hierholzer_measure (adj', stack, circuit)"
    using st c m by blast
qed

theorem C9_witness:
  "eulerianTourHierholzer 0 [[1, 1], [0], []] = Some [0, 1, 1] \<and>
   hierholzer_step ([[1, 1], [0], []], [0], []) = Some ([[1], [], []], [0, 1], []) \<and>
   hierholzer_measure ([[1], [], []], [0, 1], []) < hierholzer_measure ([[1, 1], [0], []], [0], [])"
proof -
  have r: "adj_in_range [[1, 1], [0], []]"
    by (simp add: adj_in_range_def)
  have s: "stack_in_range [[1, 1], [0], []] [0]"
    by (simp add: stack_in_range_def)
  have st: "hierholzer_step ([[1, 1], [0], []], [0], []) = Some ([[1], [], []], [0, 1], [])"
    by (simp add: hierholzer_step_def)
  have e: "eulerianTourHierholzer 0 [[1, 1], [0], []] = Some [0, 1, 1]"
    by (simp add: eulerianTourHierholzer_def hierholzer_step_def)
  have "\<exists>adj1 stack1 circuit1.
          hierholzer_step ([[1, 1], [0], []], [0], []) = Some (adj1, stack1, circuit1) \<and>
          hierholzer_measure (adj1, stack1, circuit1) <
            hierholzer_measure ([[1, 1], [0], []], [0], [])"
    using C9_hierholzer_terminates[OF r, of 0] r s by blast
  then have "hierholzer_measure ([[1], [], []], [0, 1], []) <
           hierholzer_measure ([[1, 1], [0], []], [0], [])"
    unfolding st by simp
  then show ?thesis using st e by blast
qed

subsection \<open>Prim's algorithm: the two inner loops\<close>

lemma fold_upt_Suc: "fold f [0..<Suc m] s = f m (fold f [0..<m] s)"
  by simp

lemma dbl_less_irrefl: "\<not> dbl_less a a"
  by (cases a) auto

lemma dbl_not_less_trans: "\<not> dbl_less a b \<Longrightarrow> dbl_less c b \<Longrightarrow> \<not> dbl_less a c"
  by (cases a; cases b; cases c) auto

lemma dbl_less_PosInf: "dbl_less a PosInf \<longleftrightarrow> a \<noteq> PosInf"
  by (cases a) auto

lemma dbl_less_not_PosInf: "dbl_less a b \<Longrightarrow> a \<noteq> PosInf"
  by (cases a) auto

lemma prim_scan_prefix:
  assumes "fold (prim_scan_step key inMST) [0..<m] (PosInf, - 1) = (best, u)"
  shows "(u = - 1 \<and> best = PosInf \<and> (\<forall>v < m. inMST ! v \<or> key ! v = PosInf)) \<or>
         (0 \<le> u \<and> nat u < m \<and> \<not> inMST ! nat u \<and> key ! nat u = best \<and> best \<noteq> PosInf \<and>
          (\<forall>v < m. \<not> inMST ! v \<longrightarrow> \<not> dbl_less (key ! v) best))"
  using assms
proof (induction m arbitrary: best u)
  case 0
  then show ?case by simp
next
  case (Suc m)
  obtain b0 u0 where f: "fold (prim_scan_step key inMST) [0..<m] (PosInf, - 1) = (b0, u0)"
    by (cases "fold (prim_scan_step key inMST) [0..<m] (PosInf, - 1)")
  have st: "prim_scan_step key inMST m (b0, u0) = (best, u)"
    using Suc.prems f by (simp only: fold_upt_Suc)
  note IH = Suc.IH[OF f]
  show ?case
  proof (cases "\<not> inMST ! m \<and> dbl_less (key ! m) b0")
    case True
    then have bu: "best = key ! m" "u = int m"
      using st by (simp_all add: prim_scan_step_def)
    have fin: "key ! m \<noteq> PosInf" using True dbl_less_not_PosInf by blast
    have "\<not> dbl_less (key ! v) (key ! m)" if "v < m" "\<not> inMST ! v" for v
    proof (cases "b0 = PosInf")
      case True
      then have "key ! v = PosInf" using IH that by auto
      then show ?thesis by simp
    next
      case False
      then have "\<not> dbl_less (key ! v) b0" using IH that by auto
      then show ?thesis using True dbl_not_less_trans by blast
    qed
    then have "\<forall>v < Suc m. \<not> inMST ! v \<longrightarrow> \<not> dbl_less (key ! v) (key ! m)"
      by (simp add: All_less_Suc dbl_less_irrefl)
    then show ?thesis using True bu fin by simp
  next
    case False
    then have bu: "best = b0" "u = u0"
      using st by (auto simp add: prim_scan_step_def)
    from IH show ?thesis
    proof
      assume a: "u0 = - 1 \<and> b0 = PosInf \<and> (\<forall>v<m. inMST ! v \<or> key ! v = PosInf)"
      then have "inMST ! m \<or> key ! m = PosInf"
        using False by (simp add: dbl_less_PosInf)
      then show ?thesis using a bu by (simp add: All_less_Suc)
    next
      assume a: "0 \<le> u0 \<and> nat u0 < m \<and> \<not> inMST ! nat u0 \<and> key ! nat u0 = b0 \<and> b0 \<noteq> PosInf \<and>
          (\<forall>v < m. \<not> inMST ! v \<longrightarrow> \<not> dbl_less (key ! v) b0)"
      then show ?thesis using False bu by (auto simp add: All_less_Suc)
    qed
  qed
qed

lemma prim_scan_result:
  assumes "prim_scan n key inMST = (best, u)"
  shows "(u = - 1 \<and> (\<forall>v < n. inMST ! v \<or> key ! v = PosInf)) \<or>
         (0 \<le> u \<and> nat u < n \<and> \<not> inMST ! nat u \<and> key ! nat u = best \<and> best \<noteq> PosInf \<and>
          (\<forall>v < n. \<not> inMST ! v \<longrightarrow> \<not> dbl_less (key ! v) best))"
  using prim_scan_prefix[of key inMST n best u] assms
  unfolding prim_scan_def by blast

lemma prim_update_prefix:
  assumes "fold (prim_update_step d u inMST) [0..<m] (key, parent) = (key', parent')"
    and "m \<le> length key" and "m \<le> length parent"
  shows "length key' = length key \<and> length parent' = length parent \<and>
         (\<forall>v. key' ! v = (if v < m \<and> \<not> inMST ! v \<and> dbl_less (Finite (d ! u ! v)) (key ! v)
                          then Finite (d ! u ! v) else key ! v)) \<and>
         (\<forall>v. parent' ! v = (if v < m \<and> \<not> inMST ! v \<and> dbl_less (Finite (d ! u ! v)) (key ! v)
                          then int u else parent ! v))"
  using assms
proof (induction m arbitrary: key' parent')
  case 0
  then show ?case by simp
next
  case (Suc m)
  obtain k0 p0 where f: "fold (prim_update_step d u inMST) [0..<m] (key, parent) = (k0, p0)"
    by (cases "fold (prim_update_step d u inMST) [0..<m] (key, parent)")
  have st: "prim_update_step d u inMST m (k0, p0) = (key', parent')"
    using Suc.prems(1) f by (simp only: fold_upt_Suc)
  have IH: "length k0 = length key" "length p0 = length parent"
    "\<And>v. k0 ! v = (if v < m \<and> \<not> inMST ! v \<and> dbl_less (Finite (d ! u ! v)) (key ! v)
                          then Finite (d ! u ! v) else key ! v)"
    "\<And>v. p0 ! v = (if v < m \<and> \<not> inMST ! v \<and> dbl_less (Finite (d ! u ! v)) (key ! v)
                          then int u else parent ! v)"
    using Suc.IH[OF f] Suc.prems(2,3) by simp_all
  have km: "k0 ! m = key ! m" using IH(3)[of m] by simp
  have lm: "m < length k0" "m < length p0" using IH(1,2) Suc.prems(2,3) by simp_all
  show ?case
  proof (cases "\<not> inMST ! m \<and> dbl_less (Finite (d ! u ! m)) (key ! m)")
    case True
    then have e: "key' = k0[m := Finite (d ! u ! m)]" "parent' = p0[m := int u]"
      using st km by (simp_all add: prim_update_step_def)
    have "key' ! v = (if v < Suc m \<and> \<not> inMST ! v \<and> dbl_less (Finite (d ! u ! v)) (key ! v)
                          then Finite (d ! u ! v) else key ! v)" for v
      using True lm by (cases "v = m") (simp_all add: e IH(3) nth_list_update)
    moreover have "parent' ! v = (if v < Suc m \<and> \<not> inMST ! v \<and> dbl_less (Finite (d ! u ! v)) (key ! v)
                          then int u else parent ! v)" for v
      using True lm by (cases "v = m") (simp_all add: e IH(4) nth_list_update)
    ultimately show ?thesis using IH(1,2) by (simp add: e)
  next
    case False
    then have e: "key' = k0" "parent' = p0"
      using st km by (auto simp add: prim_update_step_def)
    have "key' ! v = (if v < Suc m \<and> \<not> inMST ! v \<and> dbl_less (Finite (d ! u ! v)) (key ! v)
                          then Finite (d ! u ! v) else key ! v)" for v
      using False by (cases "v = m") (auto simp add: e IH(3))
    moreover have "parent' ! v = (if v < Suc m \<and> \<not> inMST ! v \<and> dbl_less (Finite (d ! u ! v)) (key ! v)
                          then int u else parent ! v)" for v
      using False by (cases "v = m") (auto simp add: e IH(4))
    ultimately show ?thesis using IH(1,2) by (simp add: e)
  qed
qed

lemma prim_update_result:
  assumes "prim_update d n u inMST (key, parent) = (key', parent')"
    and "length key = n" and "length parent = n"
  shows "length key' = n" and "length parent' = n"
    and "\<And>v. v < n \<Longrightarrow> \<not> inMST ! v \<Longrightarrow> dbl_less (Finite (d ! u ! v)) (key ! v) \<Longrightarrow>
           key' ! v = Finite (d ! u ! v) \<and> parent' ! v = int u"
    and "\<And>v. inMST ! v \<or> \<not> dbl_less (Finite (d ! u ! v)) (key ! v) \<Longrightarrow>
           key' ! v = key ! v \<and> parent' ! v = parent ! v"
  using prim_update_prefix[of d u inMST n key parent key' parent'] assms
  unfolding prim_update_def by auto


subsection \<open>Prim's algorithm: the outer loop\<close>

lemma prim_inv_init: "0 < n \<Longrightarrow> prim_inv d n 0 (prim_init n)"
  by (simp add: prim_inv_def prim_init_def)

lemma prim_iter_inv:
  assumes inv: "prim_inv d n k (key, parent, inMST)" and kn: "k < n"
  shows "\<exists>best u key' parent'.
           prim_scan n key inMST = (best, int u) \<and> u < n \<and> \<not> inMST ! u \<and>
           key ! u = best \<and> best \<noteq> PosInf \<and>
           (\<forall>v < n. \<not> inMST ! v \<longrightarrow> \<not> dbl_less (key ! v) best) \<and>
           prim_iter d n (key, parent, inMST) = Some (key', parent', inMST[u := True]) \<and>
           prim_inv d n (Suc k) (key', parent', inMST[u := True]) \<and>
           (\<forall>v < n. inMST ! v \<or> v = u \<longrightarrow> parent' ! v = parent ! v)"
proof -
  define S where "S = {v. v < n \<and> inMST ! v}"
  have len: "length key = n" "length parent = n" "length inMST = n"
    and card: "card S = k" and p0: "parent ! 0 = - 1"
    using inv by (simp_all add: prim_inv_def S_def)
  have k0: "key ! 0 = Finite 0" "\<And>v. v < n \<Longrightarrow> v \<noteq> 0 \<Longrightarrow> key ! v = PosInf" if "k = 0"
    using inv that by (simp_all add: prim_inv_def)
  have kp: "inMST ! 0"
    "\<And>v. v < n \<Longrightarrow> v \<noteq> 0 \<Longrightarrow>
       \<exists>p < n. parent ! v = int p \<and> inMST ! p \<and> key ! v = Finite (d ! p ! v) \<and>
                 (\<not> inMST ! v \<longrightarrow> (\<forall>s < n. inMST ! s \<longrightarrow> d ! p ! v \<le> d ! s ! v))" if "0 < k"
    using inv that by (simp_all add: prim_inv_def)
  obtain r where r: "\<And>v. v < n \<Longrightarrow> inMST ! v \<Longrightarrow> r v < k"
    "\<And>v. v < n \<Longrightarrow> inMST ! v \<Longrightarrow> v \<noteq> 0 \<Longrightarrow> r (nat (parent ! v)) < r v"
    using inv by (auto simp add: prim_inv_def)
  have finS: "finite S" by (simp add: S_def)
  \<comment> \<open>some vertex outside the tree has a finite key\<close>
  have ex: "\<exists>v < n. \<not> inMST ! v \<and> key ! v \<noteq> PosInf"
  proof (cases "k = 0")
    case True
    then have "S = {}" using card finS by simp
    then have "\<not> inMST ! 0" using kn by (auto simp: S_def)
    then show ?thesis using k0(1)[OF True] kn by (intro exI[of _ 0]) simp
  next
    case False
    have "S \<subseteq> {..<n}" by (auto simp: S_def)
    moreover have "S \<noteq> {..<n}" using card kn by auto
    ultimately obtain v where v: "v < n" "v \<notin> S" by auto
    then have "\<not> inMST ! v" by (simp add: S_def)
    moreover from this have "v \<noteq> 0" using kp(1) False by (cases "v = 0") auto
    ultimately show ?thesis using kp(2)[of v] v False by auto
  qed
  obtain best ui where sc: "prim_scan n key inMST = (best, ui)"
    by (cases "prim_scan n key inMST")
  from prim_scan_result[OF sc] ex
  have ui: "0 \<le> ui" "nat ui < n" "\<not> inMST ! nat ui" "key ! nat ui = best" "best \<noteq> PosInf"
    "\<And>v. v < n \<Longrightarrow> \<not> inMST ! v \<Longrightarrow> \<not> dbl_less (key ! v) best"
    by auto
  define u where "u = nat ui"
  have uiu: "ui = int u" using ui(1) by (simp add: u_def)
  have u: "u < n" "\<not> inMST ! u" "key ! u = best"
    using ui by (simp_all add: u_def)
  define inMST' where "inMST' = inMST[u := True]"
  have in': "inMST' ! v \<longleftrightarrow> v = u \<or> inMST ! v" if "v < n" for v
    using that len u(1) by (auto simp: inMST'_def nth_list_update)
  obtain key' parent' where up: "prim_update d n u inMST' (key, parent) = (key', parent')"
    by (cases "prim_update d n u inMST' (key, parent)")
  note upd = prim_update_result[OF up len(1,2)]
  have it: "prim_iter d n (key, parent, inMST) = Some (key', parent', inMST')"
    using sc ui(1) up by (simp add: prim_iter_def u_def inMST'_def)
  have u0: "u = 0" if "k = 0"
  proof (rule ccontr)
    assume "u \<noteq> 0"
    then have "key ! u = PosInf" using k0(2)[OF that u(1)] by simp
    then show False using ui(5) u(3) by simp
  qed
  have in0: "inMST' ! 0"
  proof (cases "k = 0")
    case True
    then show ?thesis using u0 in'[of 0] kn by simp
  next
    case False
    then show ?thesis using kp(1) in'[of 0] kn by simp
  qed
  have unchanged: "key' ! v = key ! v \<and> parent' ! v = parent ! v" if "v < n" "inMST ! v \<or> v = u" for v
    using upd(4)[of v] in'[OF that(1)] that(2) by auto
  have S': "{v. v < n \<and> inMST' ! v} = insert u S"
    using in' u(1) by (auto simp: S_def)
  have card': "card {v. v < n \<and> inMST' ! v} = Suc k"
    using card finS u(2) by (simp add: S' S_def)
  have par0: "parent' ! 0 = - 1"
    using upd(4)[of 0] in0 p0 by simp
  have P: "\<exists>p < n. parent' ! v = int p \<and> inMST' ! p \<and> key' ! v = Finite (d ! p ! v) \<and>
                 (\<not> inMST' ! v \<longrightarrow> (\<forall>s < n. inMST' ! s \<longrightarrow> d ! p ! v \<le> d ! s ! v))"
    if v: "v < n" "v \<noteq> 0" for v
  proof (cases "\<not> inMST' ! v \<and> dbl_less (Finite (d ! u ! v)) (key ! v)")
    case True
    then have kv: "key' ! v = Finite (d ! u ! v)" "parent' ! v = int u"
      using upd(3)[of v] v by simp_all
    have "d ! u ! v \<le> d ! s ! v" if s: "s < n" "inMST' ! s" for s
    proof (cases "s = u")
      case True
      then show ?thesis by simp
    next
      case False
      then have ins: "inMST ! s" using in'[OF s(1)] s(2) by simp
      then have "0 < k" using u0 s(1) False kp(1) card finS by (cases k) (auto simp: S_def)
      from kp(2)[OF this v] True in'[OF v(1)] obtain p where
        "key ! v = Finite (d ! p ! v)" "\<forall>s < n. inMST ! s \<longrightarrow> d ! p ! v \<le> d ! s ! v"
        by auto
      then show ?thesis using True s(1) ins by auto
    qed
    then show ?thesis using kv u(1) in'[OF u(1)] by (intro exI[of _ u]) simp
  next
    case False
    then have same: "key' ! v = key ! v" "parent' ! v = parent ! v"
      using upd(4)[of v] by auto
    have kpos: "0 < k"
    proof (rule ccontr)
      assume "\<not> 0 < k"
      then have k: "k = 0" by simp
      then have "S = {}" using card finS by simp
      then have "\<not> inMST ! v" using v(1) by (auto simp: S_def)
      then have "\<not> inMST' ! v" using in'[OF v(1)] u0[OF k] v(2) by simp
      moreover have "key ! v = PosInf" using k0(2)[OF k v] .
      ultimately show False using False by simp
    qed
    from kp(2)[OF kpos v] obtain p where p: "p < n" "parent ! v = int p" "inMST ! p"
      "key ! v = Finite (d ! p ! v)"
      "\<not> inMST ! v \<longrightarrow> (\<forall>s < n. inMST ! s \<longrightarrow> d ! p ! v \<le> d ! s ! v)"
      by auto
    have "d ! p ! v \<le> d ! s ! v" if nv: "\<not> inMST' ! v" and s: "s < n" "inMST' ! s" for s
    proof (cases "s = u")
      case True
      have "\<not> dbl_less (Finite (d ! u ! v)) (key ! v)" using False nv by simp
      then show ?thesis using p(4) True by simp
    next
      case False
      then have "inMST ! s" using in'[OF s(1)] s(2) by simp
      moreover have "\<not> inMST ! v" using nv in'[OF v(1)] by simp
      ultimately show ?thesis using p(5) s(1) by simp
    qed
    then show ?thesis using p same in'[OF p(1)] by (intro exI[of _ p]) auto
  qed
  define r' where "r' = r(u := k)"
  have r1: "r' v < Suc k" if "v < n" "inMST' ! v" for v
    using that in'[OF that(1)] r(1)[of v] by (auto simp: r'_def less_Suc_eq)
  have r2: "r' (nat (parent' ! v)) < r' v" if v: "v < n" "inMST' ! v" "v \<noteq> 0" for v
  proof -
    have kpos: "0 < k" using u0 v in'[OF v(1)] r(1)[of v] by (cases "k = 0") auto
    have same: "parent' ! v = parent ! v"
      using unchanged[of v] v in'[OF v(1)] by auto
    from kp(2)[OF kpos v(1,3)] obtain p where p: "p < n" "parent ! v = int p" "inMST ! p"
      by auto
    have pu: "p \<noteq> u" using p(3) u(2) by auto
    have pv: "nat (parent' ! v) = p" "nat (parent ! v) = p" by (simp_all add: same p(2))
    show ?thesis
    proof (cases "v = u")
      case True
      then show ?thesis using r(1)[OF p(1,3)] pu pv by (simp add: r'_def)
    next
      case False
      then have "inMST ! v" using v in'[OF v(1)] by simp
      then show ?thesis using r(2)[OF v(1) _ v(3)] pu False pv by (simp add: r'_def)
    qed
  qed
  have len': "length inMST' = n" using len(3) by (simp add: inMST'_def)
  have R: "\<exists>r :: nat \<Rightarrow> nat.
           (\<forall>v < n. inMST' ! v \<longrightarrow> r v < Suc k) \<and>
           (\<forall>v < n. inMST' ! v \<longrightarrow> v \<noteq> 0 \<longrightarrow> r (nat (parent' ! v)) < r v)"
    using r1 r2 by (intro exI[of _ r']) simp
  have "prim_inv d n (Suc k) (key', parent', inMST')"
    unfolding prim_inv_def using upd(1,2) len' card' par0 in0 P R
    by simp
  then show ?thesis
    using sc uiu u ui(5,6) it unchanged
    by (auto simp: inMST'_def[symmetric] intro!: exI[of _ key'] exI[of _ parent'])
qed


lemma prim_loop_inv:
  "prim_inv d n j s \<Longrightarrow> j + k \<le> n \<Longrightarrow>
     \<exists>s'. prim_loop d n k s = Some s' \<and> prim_inv d n (j + k) s'"
proof (induction k arbitrary: j s)
  case 0
  then show ?case by simp
next
  case (Suc k)
  obtain key parent inMST where s: "s = (key, parent, inMST)"
    by (cases s)
  from Suc.prems have "j < n" by simp
  from prim_iter_inv[OF Suc.prems(1)[unfolded s] this]
  obtain s1 where s1: "prim_iter d n s = Some s1" "prim_inv d n (Suc j) s1"
    unfolding s by blast
  from Suc.IH[OF s1(2)] Suc.prems(2)
  obtain s' where "prim_loop d n k s1 = Some s'" "prim_inv d n (Suc j + k) s'"
    by auto
  then show ?case using s1(1) by simp
qed

lemma prim_loop_from_init:
  assumes "0 < n" and "k \<le> n"
  shows "\<exists>s. prim_loop d n k (prim_init n) = Some s \<and> prim_inv d n k s"
  using prim_loop_inv[OF prim_inv_init[OF assms(1)], of k d] assms(2) by simp

text \<open>
  Claim C10. For \<open>n \<ge> 1\<close> and a square matrix of (finite) reals, each of the \<open>n\<close>
  iterations of \<open>primMST\<close> is reached, and its scan for the minimum key selects a
  vertex \<open>u\<close> with \<open>0 \<le> u < n\<close> that is not yet in the tree: \<open>u\<close> is not left at
  the sentinel \<open>-1\<close>. Hence \<open>inMST[u]\<close> and \<open>d[u][v]\<close> are never read at index
  \<open>-1\<close>, and \<open>primMST\<close> returns a parent array.
\<close>

theorem C10_prim_scan_finds_vertex:
  assumes "square_matrix n d" and "1 \<le> n"
  shows "(\<forall>k < n. \<exists>key parent inMST best u.
            prim_loop d n k (prim_init n) = Some (key, parent, inMST) \<and>
            prim_scan n key inMST = (best, int u) \<and> u < n \<and> \<not> inMST ! u \<and>
            best \<noteq> PosInf) \<and>
         (\<exists>parent. primMST d = Some parent \<and> length parent = n)"
proof (intro conjI allI impI)
  fix k assume k: "k < n"
  then obtain s where s: "prim_loop d n k (prim_init n) = Some s" "prim_inv d n k s"
    using prim_loop_from_init[of n k d] by auto
  obtain key parent inMST where sk: "s = (key, parent, inMST)"
    by (cases s)
  from prim_iter_inv[OF s(2)[unfolded sk] k] s(1)
  show "\<exists>key parent inMST best u.
            prim_loop d n k (prim_init n) = Some (key, parent, inMST) \<and>
            prim_scan n key inMST = (best, int u) \<and> u < n \<and> \<not> inMST ! u \<and>
            best \<noteq> PosInf"
    unfolding sk by blast
next
  obtain s where s: "prim_loop d n n (prim_init n) = Some s" "prim_inv d n n s"
    using prim_loop_from_init[of n n d] assms(2) by auto
  obtain key parent inMST where sk: "s = (key, parent, inMST)"
    by (cases s)
  have "length d = n" using assms(1) by (simp add: square_matrix_def)
  then show "\<exists>parent. primMST d = Some parent \<and> length parent = n"
    using s assms(2) by (simp add: primMST_def sk prim_inv_def)
qed

theorem C10_witness:
  "prim_loop [[0, 5], [5, 0]] 2 1 (prim_init 2) =
     Some ([Finite 0, Finite 5], [- 1, 0], [True, False]) \<and>
   prim_scan 2 [Finite 0, Finite 5] [True, False] = (Finite 5, 1) \<and>
   primMST [[0, 5], [5, 0]] = Some [- 1, 0]"
proof -
  have sq: "square_matrix 2 [[0, 5], [5, 0]]"
    by (simp add: square_matrix_def)
  have u2: "[0..<2] = [0, 1]" by (simp add: upt_rec)
  have l: "prim_loop [[0, 5], [5, 0]] 2 1 (prim_init 2) =
     Some ([Finite 0, Finite 5], [- 1, 0], [True, False])"
    by (simp add: prim_init_def prim_iter_def prim_scan_def prim_scan_step_def prim_update_def
        prim_update_step_def u2 eval_nat_numeral)
  from C10_prim_scan_finds_vertex[OF sq]
  obtain parent where p: "primMST [[0, 5], [5, 0]] = Some parent" by auto
  moreover have "parent = [- 1, 0]"
    using p by (simp add: primMST_def prim_init_def prim_iter_def prim_scan_def prim_scan_step_def
        prim_update_def prim_update_step_def u2 eval_nat_numeral)
  moreover have "prim_scan 2 [Finite 0, Finite 5] [True, False] = (Finite 5, 1)"
    by (simp add: prim_scan_def prim_scan_step_def u2)
  ultimately show ?thesis using l by simp
qed

subsection \<open>Paths, cycles and the exchange of an edge\<close>

lemma sym_und: "sym (und T)"
  by (simp add: und_def sym_Un_converse)

lemma und_rtrancl_sym: "(a, b) \<in> (und T)\<^sup>* \<Longrightarrow> (b, a) \<in> (und T)\<^sup>*"
  using sym_rtrancl[OF sym_und] by (meson symD)

lemma und_mono: "A \<subseteq> B \<Longrightarrow> und A \<subseteq> und B"
  by (auto simp: und_def)

lemma path_rtrancl:
  "xs \<noteq> [] \<Longrightarrow> successively (\<lambda>a b. (a, b) \<in> E) xs \<Longrightarrow> (hd xs, last xs) \<in> E\<^sup>*"
proof (induction xs)
  case Nil
  then show ?case by simp
next
  case (Cons a xs)
  show ?case
  proof (cases xs)
    case Nil
    then show ?thesis by simp
  next
    case (Cons b ys)
    then have "(a, b) \<in> E" "(hd xs, last xs) \<in> E\<^sup>*"
      using Cons.prems Cons.IH by simp_all
    then show ?thesis using Cons by simp
  qed
qed

lemma rtrancl_distinct_path:
  assumes "(a, b) \<in> E\<^sup>*"
  shows "\<exists>xs. xs \<noteq> [] \<and> hd xs = a \<and> last xs = b \<and> distinct xs \<and>
              successively (\<lambda>x y. (x, y) \<in> E) xs"
  using assms
proof (induction rule: rtrancl_induct)
  case base
  show ?case by (intro exI[of _ "[a]"]) simp
next
  case (step b c)
  then obtain xs where xs: "xs \<noteq> []" "hd xs = a" "last xs = b" "distinct xs"
    "successively (\<lambda>x y. (x, y) \<in> E) xs" by blast
  show ?case
  proof (cases "c \<in> set xs")
    case True
    then obtain us vs where s: "xs = us @ c # vs"
      by (meson split_list)
    have "successively (\<lambda>x y. (x, y) \<in> E) (us @ [c])"
      using xs(5) unfolding s by (auto simp: successively_append_iff successively_Cons)
    moreover have "distinct (us @ [c])" using xs(4) unfolding s by simp
    moreover have "hd (us @ [c]) = a" using xs(2) unfolding s by (cases us) simp_all
    ultimately show ?thesis by (intro exI[of _ "us @ [c]"]) simp
  next
    case False
    have "successively (\<lambda>x y. (x, y) \<in> E) (xs @ [c])"
      using xs(1,3,5) step.hyps(2) by (simp add: successively_append_iff)
    then show ?thesis using xs False by (intro exI[of _ "xs @ [c]"]) simp
  qed
qed

lemma first_crossing:
  assumes "xs \<noteq> []" and "hd xs \<in> S" and "last xs \<notin> S"
  shows "\<exists>ys x y zs. xs = ys @ x # y # zs \<and> set ys \<subseteq> S \<and> x \<in> S \<and> y \<notin> S"
  using assms
proof (induction xs)
  case Nil
  then show ?case by simp
next
  case (Cons a xs)
  show ?case
  proof (cases xs)
    case Nil
    then show ?thesis using Cons.prems by simp
  next
    case c: (Cons b bs)
    show ?thesis
    proof (cases "b \<in> S")
      case False
      then show ?thesis using Cons.prems c
        by (intro exI[of _ "[]"] exI[of _ a] exI[of _ b] exI[of _ bs]) simp
    next
      case True
      then obtain ys x y zs where "xs = ys @ x # y # zs" "set ys \<subseteq> S" "x \<in> S" "y \<notin> S"
        using Cons.IH Cons.prems c by auto
      then show ?thesis using Cons.prems
        by (intro exI[of _ "a # ys"] exI[of _ x] exI[of _ y] exI[of _ zs]) simp
    qed
  qed
qed

text \<open>
  The exchange step of the cut property: \<open>T\<close> connects the vertices, \<open>p\<close> is inside the
  cut \<open>S\<close> and \<open>u\<close> outside. Then some edge of \<open>T\<close> crosses the cut and can be replaced
  by the edge \<open>(u, p)\<close>.
\<close>

lemma exchange_edge:
  assumes conn: "connected_graph n T" and p: "p < n" "p \<in> S" and u: "u < n" "u \<notin> S"
  shows "\<exists>x y. x \<in> S \<and> y \<notin> S \<and> ((x, y) \<in> T \<or> (y, x) \<in> T) \<and>
           (\<forall>e. e \<in> T \<and> (e = (x, y) \<or> e = (y, x)) \<longrightarrow>
                connected_graph n (insert (u, p) (T - {e})))"
proof -
  from conn p(1) u(1) have "(p, u) \<in> (und T)\<^sup>*"
    by (simp add: connected_graph_def)
  from rtrancl_distinct_path[OF this]
  obtain xs where xs: "xs \<noteq> []" "hd xs = p" "last xs = u" "distinct xs"
    "successively (\<lambda>x y. (x, y) \<in> und T) xs" by blast
  from first_crossing[of xs S] xs p(2) u(2)
  obtain ys x y zs where sp: "xs = ys @ x # y # zs" "set ys \<subseteq> S" "x \<in> S" "y \<notin> S"
    by auto
  have xy: "(x, y) \<in> und T"
    using xs(5) unfolding sp by (simp add: successively_append_iff)
  have P1: "successively (\<lambda>a b. (a, b) \<in> und T) (ys @ [x])"
    and P2: "successively (\<lambda>a b. (a, b) \<in> und T) (y # zs)"
    using xs(5) unfolding sp by (auto simp: successively_append_iff successively_Cons)
  have h1: "hd (ys @ [x]) = p" using xs(2) unfolding sp by (cases ys) simp_all
  have l2: "last (y # zs) = u" using xs(3) unfolding sp by simp
  have nx: "x \<notin> set (y # zs)" and ny: "y \<notin> set (ys @ [x])"
    using xs(4) unfolding sp by auto
  have conn': "connected_graph n (insert (u, p) (T - {e}))"
    if e: "e \<in> T" "e = (x, y) \<or> e = (y, x)" for e
  proof -
    define E' where "E' = und (insert (u, p) (T - {e}))"
    have keep: "(a, b) \<in> E'" if "(a, b) \<in> und T" "(a, b) \<noteq> (x, y)" "(a, b) \<noteq> (y, x)" for a b
      using that e(2) by (auto simp: E'_def und_def)
    have "successively (\<lambda>a b. (a, b) \<in> E') (ys @ [x])"
    proof (rule successively_mono[OF P1])
      fix a b assume "a \<in> set (ys @ [x])" "b \<in> set (ys @ [x])" "(a, b) \<in> und T"
      then show "(a, b) \<in> E'" using ny by (intro keep) auto
    qed
    from path_rtrancl[OF _ this] h1 have px: "(p, x) \<in> E'\<^sup>*" by simp
    have "successively (\<lambda>a b. (a, b) \<in> E') (y # zs)"
    proof (rule successively_mono[OF P2])
      fix a b assume "a \<in> set (y # zs)" "b \<in> set (y # zs)" "(a, b) \<in> und T"
      then show "(a, b) \<in> E'" using nx by (intro keep) auto
    qed
    from path_rtrancl[OF _ this] l2 have yu: "(y, u) \<in> E'\<^sup>*" by simp
    have symE: "(b, a) \<in> E'\<^sup>*" if "(a, b) \<in> E'\<^sup>*" for a b
      using that und_rtrancl_sym unfolding E'_def by blast
    have "(p, u) \<in> E'" by (auto simp: E'_def und_def)
    then have "(x, y) \<in> E'\<^sup>*"
      using symE[OF px] symE[OF yu]
      by (meson rtrancl.rtrancl_into_rtrancl rtrancl_trans)
    then have "(y, x) \<in> E'\<^sup>*" by (rule symE)
    have "und T \<subseteq> E'\<^sup>*"
    proof
      fix ab assume ab: "ab \<in> und T"
      obtain a b where [simp]: "ab = (a, b)" by (cases ab)
      show "ab \<in> E'\<^sup>*"
        using keep[of a b] ab \<open>(x, y) \<in> E'\<^sup>*\<close> \<open>(y, x) \<in> E'\<^sup>*\<close>
        by (cases "(a, b) = (x, y) \<or> (a, b) = (y, x)") auto
    qed
    then have "(und T)\<^sup>* \<subseteq> E'\<^sup>*" by (rule rtrancl_subset_rtrancl)
    then show ?thesis using conn by (auto simp: connected_graph_def E'_def)
  qed
  have "(x, y) \<in> T \<or> (y, x) \<in> T" using xy by (auto simp: und_def)
  then show ?thesis using sp(3,4) conn' by blast
qed


text \<open>
  Edges that lead from every vertex to one of smaller rank, at most one from each vertex,
  close no cycle: on a cycle, the vertex of greatest rank would need two of them.
\<close>

lemma rank_forest:
  assumes dec: "\<And>a b. (a, b) \<in> T \<Longrightarrow> r b < (r a :: nat)"
    and fn: "\<And>a b b'. (a, b) \<in> T \<Longrightarrow> (a, b') \<in> T \<Longrightarrow> b = b'"
  shows "forest T"
  unfolding forest_def
proof (intro allI notI)
  fix c assume cyc: "is_cycle T c"
  define L where "L = length c"
  have L: "3 \<le> L" and dist: "distinct c"
    and adj: "\<And>i. i < L \<Longrightarrow> (c ! i, c ! ((i + 1) mod L)) \<in> und T"
    using cyc by (simp_all add: is_cycle_def L_def)
  have "set c \<noteq> {}" using L by (auto simp: L_def)
  then have "Max (r ` set c) \<in> r ` set c" by (intro Max_in) auto
  then obtain m where m: "m \<in> set c" "r m = Max (r ` set c)" by auto
  then obtain i where i: "i < L" "c ! i = m" by (auto simp: in_set_conv_nth L_def)
  have mx: "r (c ! j) \<le> r (c ! i)" if "j < L" for j
    using that m(2) i(2) by (simp add: L_def)
  define j where "j = (i + 1) mod L"
  define i' where "i' = (if i = 0 then L - 1 else i - 1)"
  have j: "j < L" using L by (simp add: j_def)
  have i': "i' < L" "(i' + 1) mod L = i" using L i(1) by (auto simp: i'_def)
  have ne: "i \<noteq> j" "i' \<noteq> i" "i' \<noteq> j"
    using L i(1) by (auto simp: i'_def j_def mod_Suc)
  have nth_ne: "c ! a \<noteq> c ! b" if "a < L" "b < L" "a \<noteq> b" for a b
    using that dist by (simp add: nth_eq_iff_index_eq L_def)
  have e1: "(c ! i, c ! j) \<in> T"
  proof -
    have "(c ! i, c ! j) \<in> und T" using adj[OF i(1)] by (simp add: j_def)
    moreover have "(c ! j, c ! i) \<notin> T" using dec[of "c ! j" "c ! i"] mx[OF j] by auto
    ultimately show ?thesis by (auto simp: und_def)
  qed
  have e2: "(c ! i, c ! i') \<in> T"
  proof -
    have "(c ! i', c ! i) \<in> und T" using adj[OF i'(1)] i'(2) by simp
    moreover have "(c ! i', c ! i) \<notin> T" using dec[of "c ! i'" "c ! i"] mx[OF i'(1)] by auto
    ultimately show ?thesis by (auto simp: und_def)
  qed
  from fn[OF e1 e2] nth_ne[OF i'(1) j ne(3)] show False by simp
qed

lemma rank_connected:
  assumes "\<And>v. 0 < v \<Longrightarrow> v < n \<Longrightarrow> (v, f v) \<in> T \<and> f v < n \<and> r (f v) < (r v :: nat)"
  shows "v < n \<Longrightarrow> (v, 0) \<in> (und T)\<^sup>*"
proof (induction v rule: measure_induct_rule[of r])
  case (less v)
  show ?case
  proof (cases "v = 0")
    case True
    then show ?thesis by simp
  next
    case False
    then have a: "(v, f v) \<in> T" "f v < n" "r (f v) < r v"
      using assms[of v] less.prems by simp_all
    from less.IH[OF a(3) a(2)] have "(f v, 0) \<in> (und T)\<^sup>*" .
    moreover have "(v, f v) \<in> und T" using a(1) by (simp add: und_def)
    ultimately show ?thesis by (rule converse_rtrancl_into_rtrancl[rotated])
  qed
qed

lemma tree_edges_iff:
  "(a, b) \<in> tree_edges parent \<longleftrightarrow> 1 \<le> a \<and> a < length parent \<and> b = nat (parent ! a)"
  by (auto simp: tree_edges_def)

lemma card_tree_edges: "card (tree_edges parent) = length parent - 1"
proof -
  have "inj_on (\<lambda>v. (v, nat (parent ! v))) {1..<length parent}"
    by (simp add: inj_on_def)
  then show ?thesis by (simp add: tree_edges_def card_image)
qed

lemma weight_tree_edges:
  "weight d (tree_edges parent) = (\<Sum>v = 1..<length parent. d ! v ! nat (parent ! v))"
proof -
  have "inj_on (\<lambda>v. (v, nat (parent ! v))) {1..<length parent}"
    by (simp add: inj_on_def)
  then show ?thesis by (simp add: weight_def tree_edges_def sum.reindex)
qed

lemma rank_spanning_tree:
  assumes len: "length parent = n" and n: "0 < n"
    and par: "\<And>v. 0 < v \<Longrightarrow> v < n \<Longrightarrow> nat (parent ! v) < n \<and> r (nat (parent ! v)) < (r v :: nat)"
  shows "spanning_tree n (tree_edges parent)"
proof -
  let ?T = "tree_edges parent"
  have sub: "?T \<subseteq> {..<n} \<times> {..<n}"
    using par len by (auto simp: tree_edges_iff)
  have card: "card ?T = n - 1" by (simp add: card_tree_edges len)
  have to0: "(v, 0) \<in> (und ?T)\<^sup>*" if "v < n" for v
    using that
  proof (rule rank_connected[where f = "\<lambda>v. nat (parent ! v)" and r = r, rotated])
    fix v assume "0 < v" "v < n"
    then show "(v, nat (parent ! v)) \<in> ?T \<and> nat (parent ! v) < n \<and> r (nat (parent ! v)) < r v"
      using par[of v] len by (simp add: tree_edges_iff)
  qed
  have conn: "connected_graph n ?T"
    unfolding connected_graph_def
  proof (intro allI impI)
    fix u v assume "u < n" "v < n"
    then have "(u, 0) \<in> (und ?T)\<^sup>*" "(0, v) \<in> (und ?T)\<^sup>*"
      using to0 und_rtrancl_sym by blast+
    then show "(u, v) \<in> (und ?T)\<^sup>*" by (rule rtrancl_trans)
  qed
  have "forest ?T"
  proof (rule rank_forest[where r = r])
    fix a b assume "(a, b) \<in> ?T"
    then show "r b < r a" using par[of a] len by (simp add: tree_edges_iff)
  next
    fix a b b' assume "(a, b) \<in> ?T" "(a, b') \<in> ?T"
    then show "b = b'" by (simp add: tree_edges_iff)
  qed
  then show ?thesis using sub card conn by (simp add: spanning_tree_def)
qed


subsection \<open>Prim's algorithm builds a minimum spanning tree\<close>

lemma mst_extendable_empty: "mst_extendable d n {}"
  unfolding mst_extendable_def by blast

lemma weight_exchange:
  assumes "finite T" and "e \<in> T" and "f \<notin> T"
  shows "weight d (insert f (T - {e})) =
           weight d T - (case e of (a, b) \<Rightarrow> d ! a ! b) + (case f of (a, b) \<Rightarrow> d ! a ! b)"
    and "card (insert f (T - {e})) = card T"
proof -
  have "weight d T = (case e of (a, b) \<Rightarrow> d ! a ! b) + weight d (T - {e})"
    unfolding weight_def using assms(1,2) by (rule sum.remove)
  moreover have "weight d (insert f (T - {e})) =
      (case f of (a, b) \<Rightarrow> d ! a ! b) + weight d (T - {e})"
    unfolding weight_def using assms(1,3) by (intro sum.insert) auto
  ultimately show "weight d (insert f (T - {e})) =
           weight d T - (case e of (a, b) \<Rightarrow> d ! a ! b) + (case f of (a, b) \<Rightarrow> d ! a ! b)"
    by simp
  have "0 < card T" using assms(1,2) by (auto simp: card_gt_0_iff)
  then show "card (insert f (T - {e})) = card T"
    using assms by (simp add: card_insert_if card_Diff_singleton_if)
qed

lemma prim_iter_extendable:
  assumes sym: "symmetric_matrix n d"
    and inv: "prim_inv d n k (key, parent, inMST)"
    and u: "u < n" "\<not> inMST ! u" "key ! u = best" "best \<noteq> PosInf"
    and least: "\<forall>v < n. \<not> inMST ! v \<longrightarrow> \<not> dbl_less (key ! v) best"
    and same: "\<forall>v < n. inMST ! v \<or> v = u \<longrightarrow> parent' ! v = parent ! v"
    and ext: "mst_extendable d n (prim_edges n parent inMST)"
  shows "mst_extendable d n (prim_edges n parent' (inMST[u := True]))"
proof -
  define S where "S = {v. v < n \<and> inMST ! v}"
  define F where "F = prim_edges n parent inMST"
  have len: "length inMST = n" using inv by (simp add: prim_inv_def)
  have in': "(inMST[u := True]) ! v \<longleftrightarrow> v = u \<or> inMST ! v" if "v < n" for v
    using that len u(1) by (auto simp: nth_list_update)
  show ?thesis
  proof (cases "u = 0")
    case True
    have "prim_edges n parent' (inMST[u := True]) = F"
    proof (intro set_eqI iffI)
      fix e assume "e \<in> prim_edges n parent' (inMST[u := True])"
      then obtain v where v: "e = (v, nat (parent' ! v))" "v < n" "v \<noteq> 0"
        "(inMST[u := True]) ! v" by (auto simp: prim_edges_def)
      then have "inMST ! v" "parent' ! v = parent ! v" using in'[of v] same True by auto
      then show "e \<in> F" using v by (auto simp: F_def prim_edges_def)
    next
      fix e assume "e \<in> F"
      then obtain v where v: "e = (v, nat (parent ! v))" "v < n" "v \<noteq> 0" "inMST ! v"
        by (auto simp: F_def prim_edges_def)
      then have "(inMST[u := True]) ! v" "parent' ! v = parent ! v" using in'[of v] same by auto
      then show "e \<in> prim_edges n parent' (inMST[u := True])"
        using v by (auto simp: prim_edges_def)
    qed
    then show ?thesis using ext by (simp add: F_def)
  next
    case False
    have kpos: "0 < k"
    proof (rule ccontr)
      assume "\<not> 0 < k"
      then have "key ! u = PosInf" using inv u(1) False by (simp add: prim_inv_def)
      then show False using u(3,4) by simp
    qed
    have in0: "inMST ! 0" using inv kpos by (simp add: prim_inv_def)
    have P: "\<exists>p < n. parent ! v = int p \<and> inMST ! p \<and> key ! v = Finite (d ! p ! v) \<and>
                 (\<not> inMST ! v \<longrightarrow> (\<forall>s < n. inMST ! s \<longrightarrow> d ! p ! v \<le> d ! s ! v))"
      if "v < n" "v \<noteq> 0" for v
      using inv kpos that by (simp add: prim_inv_def)
    from P[OF u(1) False] obtain p where p: "p < n" "parent ! u = int p" "inMST ! p"
      "key ! u = Finite (d ! p ! u)" by auto
    have F': "prim_edges n parent' (inMST[u := True]) = insert (u, p) F"
    proof (intro set_eqI iffI)
      fix e assume "e \<in> prim_edges n parent' (inMST[u := True])"
      then obtain v where v: "e = (v, nat (parent' ! v))" "v < n" "v \<noteq> 0"
        "(inMST[u := True]) ! v" by (auto simp: prim_edges_def)
      then have *: "v = u \<or> inMST ! v" "parent' ! v = parent ! v" using in'[of v] same by auto
      show "e \<in> insert (u, p) F"
      proof (cases "v = u")
        case True
        then show ?thesis using v(1) *(2) p(2) by simp
      next
        case False
        then show ?thesis using v * by (auto simp: F_def prim_edges_def)
      qed
    next
      fix e assume "e \<in> insert (u, p) F"
      then consider "e = (u, p)" | "e \<in> F" by auto
      then show "e \<in> prim_edges n parent' (inMST[u := True])"
      proof cases
        case 1
        have "parent' ! u = parent ! u" using same u(1) by simp
        then have "e = (u, nat (parent' ! u))" using 1 p(2) by simp
        moreover have "(inMST[u := True]) ! u" using in'[OF u(1)] by simp
        ultimately show ?thesis using u(1) False unfolding prim_edges_def by blast
      next
        case 2
        then obtain v where v: "e = (v, nat (parent ! v))" "v < n" "v \<noteq> 0" "inMST ! v"
          by (auto simp: F_def prim_edges_def)
        then have "(inMST[u := True]) ! v" "parent' ! v = parent ! v"
          using in'[of v] same by auto
        then show ?thesis using v unfolding prim_edges_def by auto
      qed
    qed
    have FS: "a \<in> S \<and> b \<in> S" if "(a, b) \<in> F" for a b
    proof -
      from that have a: "a < n" "a \<noteq> 0" "inMST ! a" "b = nat (parent ! a)"
        by (auto simp: F_def prim_edges_def)
      from P[OF a(1,2)] a(4) have "b < n" "inMST ! b" by auto
      then show ?thesis using a by (simp add: S_def)
    qed
    have light: "d ! u ! p \<le> d ! x ! y \<and> d ! u ! p \<le> d ! y ! x"
      if x: "x < n" "x \<in> S" and y: "y < n" "y \<notin> S" for x y
    proof -
      have ny: "\<not> inMST ! y" using y by (simp add: S_def)
      then have ny0: "y \<noteq> 0" using in0 by (cases "y = 0") simp_all
      from P[OF y(1) ny0] ny x obtain q where
        q: "key ! y = Finite (d ! q ! y)" "d ! q ! y \<le> d ! x ! y"
        by (auto simp: S_def)
      have "\<not> dbl_less (key ! y) best" using least y(1) ny by simp
      then have "d ! p ! u \<le> d ! q ! y" using q(1) p(4) u(3) by auto
      moreover have "d ! u ! p = d ! p ! u" "d ! y ! x = d ! x ! y"
        using sym u(1) p(1) x(1) y(1) by (simp_all add: symmetric_matrix_def)
      ultimately show ?thesis using q(2) by simp
    qed
    show ?thesis
      unfolding mst_extendable_def F'
    proof (intro allI impI)
      fix T assume T: "T \<subseteq> {..<n} \<times> {..<n} \<and> card T = n - 1 \<and> connected_graph n T"
      from ext[unfolded mst_extendable_def, folded F_def, rule_format, OF T]
      obtain T1 where T1: "T1 \<subseteq> {..<n} \<times> {..<n}" "card T1 = n - 1"
        "connected_graph n T1" "F \<subseteq> T1" "weight d T1 \<le> weight d T"
        by (elim exE conjE)
      have fin: "finite T1" using T1(1) by (rule finite_subset) simp
      show "\<exists>T'. T' \<subseteq> {..<n} \<times> {..<n} \<and> card T' = n - 1 \<and> connected_graph n T' \<and>
                insert (u, p) F \<subseteq> T' \<and> weight d T' \<le> weight d T"
      proof (cases "(u, p) \<in> T1")
        case True
        then show ?thesis using T1 by (intro exI[of _ T1]) simp
      next
        case nin: False
        have "p \<in> S" "u \<notin> S" using p(1,3) u(2) by (simp_all add: S_def)
        from exchange_edge[OF T1(3) p(1) this(1) u(1) this(2)]
        obtain x y where xy: "x \<in> S" "y \<notin> S" "(x, y) \<in> T1 \<or> (y, x) \<in> T1"
          "\<And>e. e \<in> T1 \<Longrightarrow> e = (x, y) \<or> e = (y, x) \<Longrightarrow>
             connected_graph n (insert (u, p) (T1 - {e}))"
          by blast
        define e where "e = (if (x, y) \<in> T1 then (x, y) else (y, x))"
        have e: "e \<in> T1" "e = (x, y) \<or> e = (y, x)" using xy(3) by (auto simp: e_def)
        have xyn: "x < n" "y < n" using e T1(1) by auto
        define T' where "T' = insert (u, p) (T1 - {e})"
        have "e \<notin> F" using FS xy(1,2) e(2) by auto
        then have sub: "insert (u, p) F \<subseteq> T'" using T1(4) by (auto simp: T'_def)
        have "(case e of (a, b) \<Rightarrow> d ! a ! b) \<ge> d ! u ! p"
          using light[OF xyn(1) xy(1) xyn(2) xy(2)] e(2) by auto
        then have w: "weight d T' \<le> weight d T1"
          using weight_exchange(1)[OF fin e(1) nin, of d] by (simp add: T'_def)
        have c: "card T' = n - 1"
          using weight_exchange(2)[OF fin e(1) nin] T1(2) by (simp add: T'_def)
        have "T' \<subseteq> {..<n} \<times> {..<n}" using T1(1) u(1) p(1) by (auto simp: T'_def)
        moreover have "connected_graph n T'" using xy(4)[OF e] by (simp add: T'_def)
        ultimately show ?thesis using sub w c T1(5) by (intro exI[of _ T']) simp
      qed
    qed
  qed
qed

lemma prim_loop_extendable:
  "symmetric_matrix n d \<Longrightarrow> prim_inv d n j (key, parent, inMST) \<Longrightarrow>
   mst_extendable d n (prim_edges n parent inMST) \<Longrightarrow> j + k \<le> n \<Longrightarrow>
     \<exists>key' parent' inMST'.
        prim_loop d n k (key, parent, inMST) = Some (key', parent', inMST') \<and>
        prim_inv d n (j + k) (key', parent', inMST') \<and>
        mst_extendable d n (prim_edges n parent' inMST')"
proof (induction k arbitrary: j key parent inMST)
  case 0
  then show ?case by simp
next
  case (Suc k)
  from Suc.prems have jn: "j < n" by simp
  from prim_iter_inv[OF Suc.prems(2) jn]
  obtain best u key1 parent1 where it:
    "u < n" "\<not> inMST ! u" "key ! u = best" "best \<noteq> PosInf"
    "\<forall>v < n. \<not> inMST ! v \<longrightarrow> \<not> dbl_less (key ! v) best"
    "prim_iter d n (key, parent, inMST) = Some (key1, parent1, inMST[u := True])"
    "prim_inv d n (Suc j) (key1, parent1, inMST[u := True])"
    "\<forall>v < n. inMST ! v \<or> v = u \<longrightarrow> parent1 ! v = parent ! v"
    by blast
  have "mst_extendable d n (prim_edges n parent1 (inMST[u := True]))"
    using prim_iter_extendable[OF Suc.prems(1,2) it(1-5) it(8) Suc.prems(3)] .
  from Suc.IH[OF Suc.prems(1) it(7) this] Suc.prems(4)
  show ?case using it(6) by simp
qed


lemma prim_edges_init: "prim_edges n (replicate n (- 1)) (replicate n False) = {}"
  by (auto simp: prim_edges_def)

lemma primMST_invariants:
  assumes sym: "symmetric_matrix n d" and len: "length d = n" and n: "0 < n"
  shows "\<exists>key parent inMST.
           primMST d = Some parent \<and> prim_inv d n n (key, parent, inMST) \<and>
           mst_extendable d n (prim_edges n parent inMST)"
proof -
  obtain key0 where i: "prim_init n = (key0, replicate n (- 1), replicate n False)"
    by (simp add: prim_init_def)
  have "prim_inv d n 0 (key0, replicate n (- 1), replicate n False)"
    using prim_inv_init[OF n, of d] by (simp add: i)
  moreover have "mst_extendable d n (prim_edges n (replicate n (- 1)) (replicate n False))"
    by (simp add: prim_edges_init mst_extendable_empty)
  ultimately obtain key parent inMST where
    "prim_loop d n n (key0, replicate n (- 1), replicate n False) = Some (key, parent, inMST)"
    "prim_inv d n n (key, parent, inMST)" "mst_extendable d n (prim_edges n parent inMST)"
    using prim_loop_extendable[OF sym, of 0 key0 "replicate n (- 1)" "replicate n False" n]
    by auto
  then show ?thesis using len n by (auto simp: primMST_def i)
qed

lemma prim_inv_final:
  assumes "prim_inv d n n (key, parent, inMST)" and n: "0 < n"
  shows "length parent = n" and "parent ! 0 = - 1"
    and "\<And>v. v < n \<Longrightarrow> inMST ! v"
    and "\<And>v. 0 < v \<Longrightarrow> v < n \<Longrightarrow> 0 \<le> parent ! v \<and> nat (parent ! v) < n"
    and "\<exists>r :: nat \<Rightarrow> nat. \<forall>v. 0 < v \<and> v < n \<longrightarrow> r (nat (parent ! v)) < r v"
proof -
  show len: "length parent = n" and "parent ! 0 = - 1"
    using assms(1) by (simp_all add: prim_inv_def)
  have "card {v. v < n \<and> inMST ! v} = n" using assms(1) by (simp add: prim_inv_def)
  moreover have "{v. v < n \<and> inMST ! v} \<subseteq> {..<n}" by auto
  ultimately have "{v. v < n \<and> inMST ! v} = {..<n}"
    by (intro card_subset_eq) simp_all
  then show all: "\<And>v. v < n \<Longrightarrow> inMST ! v" by auto
  show "\<And>v. 0 < v \<Longrightarrow> v < n \<Longrightarrow> 0 \<le> parent ! v \<and> nat (parent ! v) < n"
    using assms by (auto simp: prim_inv_def)
  obtain r :: "nat \<Rightarrow> nat" where
    "\<forall>v < n. inMST ! v \<longrightarrow> v \<noteq> 0 \<longrightarrow> r (nat (parent ! v)) < r v"
    using assms(1) by (auto simp: prim_inv_def)
  then show "\<exists>r :: nat \<Rightarrow> nat. \<forall>v. 0 < v \<and> v < n \<longrightarrow> r (nat (parent ! v)) < r v"
    using all by (intro exI[of _ r]) simp
qed

text \<open>
  Claim C2. For a symmetric \<open>n \<times> n\<close> distance matrix with \<open>n \<ge> 2\<close>, \<open>primMST\<close> returns
  a parent array of length \<open>n\<close> with \<open>parent[0] = -1\<close> and every other parent in range.
  The \<open>n - 1\<close> edges \<open>(v, parent[v])\<close>, \<open>v = 1, ..., n - 1\<close>, are pairwise different,
  connect all \<open>n\<close> vertices and close no cycle; and their total weight, the sum of
  \<open>d[v][parent[v]]\<close>, is at most the total weight of every spanning tree of the complete
  graph on the \<open>n\<close> vertices.
\<close>

theorem C2_primMST_minimum_spanning_tree:
  assumes "square_matrix n d" and "symmetric_matrix n d" and "2 \<le> n"
  shows "\<exists>parent. primMST d = Some parent \<and> length parent = n \<and> parent ! 0 = - 1 \<and>
           (\<forall>v. 1 \<le> v \<and> v < n \<longrightarrow> 0 \<le> parent ! v \<and> parent ! v < int n) \<and>
           card (tree_edges parent) = n - 1 \<and>
           connected_graph n (tree_edges parent) \<and> forest (tree_edges parent) \<and>
           weight d (tree_edges parent) = (\<Sum>v = 1..<n. d ! v ! nat (parent ! v)) \<and>
           (\<forall>T. spanning_tree n T \<longrightarrow> weight d (tree_edges parent) \<le> weight d T)"
proof -
  have n: "0 < n" using assms(3) by simp
  have len: "length d = n" using assms(1) by (simp add: square_matrix_def)
  from primMST_invariants[OF assms(2) len n]
  obtain key parent inMST where p: "primMST d = Some parent"
    "prim_inv d n n (key, parent, inMST)" "mst_extendable d n (prim_edges n parent inMST)"
    by blast
  note fin = prim_inv_final[OF p(2) n]
  obtain r :: "nat \<Rightarrow> nat" where r: "\<And>v. 0 < v \<Longrightarrow> v < n \<Longrightarrow> r (nat (parent ! v)) < r v"
    using fin(5) by blast
  have st: "spanning_tree n (tree_edges parent)"
    using fin(1) n
  proof (rule rank_spanning_tree[where r = r])
    fix v assume "0 < v" "v < n"
    then show "nat (parent ! v) < n \<and> r (nat (parent ! v)) < r v"
      using fin(4)[of v] r[of v] by simp
  qed
  have pe: "prim_edges n parent inMST = tree_edges parent"
  proof (intro set_eqI iffI)
    fix e assume "e \<in> prim_edges n parent inMST"
    then obtain v where "e = (v, nat (parent ! v))" "v < n" "v \<noteq> 0"
      unfolding prim_edges_def by blast
    then show "e \<in> tree_edges parent" using fin(1) by (simp add: tree_edges_iff)
  next
    fix e assume e: "e \<in> tree_edges parent"
    obtain a b where ab: "e = (a, b)" by (cases e)
    with e have "1 \<le> a" "a < n" "b = nat (parent ! a)"
      using fin(1) by (simp_all add: tree_edges_iff)
    then show "e \<in> prim_edges n parent inMST"
      unfolding prim_edges_def ab using fin(3)[of a] by simp
  qed
  have range: "\<forall>v. 1 \<le> v \<and> v < n \<longrightarrow> 0 \<le> parent ! v \<and> parent ! v < int n"
  proof (intro allI impI)
    fix v assume "1 \<le> v \<and> v < n"
    then have "0 \<le> parent ! v" "nat (parent ! v) < n" using fin(4)[of v] by simp_all
    then show "0 \<le> parent ! v \<and> parent ! v < int n" by linarith
  qed
  have least: "weight d (tree_edges parent) \<le> weight d T" if T: "spanning_tree n T" for T
  proof -
    have T': "T \<subseteq> {..<n} \<times> {..<n} \<and> card T = n - 1 \<and> connected_graph n T"
      using T by (simp add: spanning_tree_def)
    from p(3)[unfolded mst_extendable_def pe, rule_format, OF T']
    obtain T1 where T1: "T1 \<subseteq> {..<n} \<times> {..<n}" "card T1 = n - 1"
      "tree_edges parent \<subseteq> T1" "weight d T1 \<le> weight d T"
      by (elim exE conjE)
    have "finite T1" using T1(1) by (rule finite_subset) simp
    moreover have "card T1 \<le> card (tree_edges parent)"
      using T1(2) by (simp add: card_tree_edges fin(1))
    ultimately have "tree_edges parent = T1"
      using T1(3) by (intro card_seteq)
    then show ?thesis using T1(4) by simp
  qed
  have "card (tree_edges parent) = n - 1" "connected_graph n (tree_edges parent)"
    "forest (tree_edges parent)"
    using st by (simp_all add: spanning_tree_def)
  moreover have "weight d (tree_edges parent) = (\<Sum>v = 1..<n. d ! v ! nat (parent ! v))"
    by (simp add: weight_tree_edges fin(1))
  moreover have "\<forall>T. spanning_tree n T \<longrightarrow> weight d (tree_edges parent) \<le> weight d T"
    using least by blast
  ultimately show ?thesis
    using p(1) fin(1,2) range by (intro exI[of _ parent] conjI) assumption+
qed

lemma upt_1_4_set: "{1..<4::nat} = {1, 2, 3}"
  by auto

theorem C2_witness:
  "primMST unit_square_matrix = Some [- 1, 0, 1, 0] \<and>
   weight unit_square_matrix (tree_edges [- 1, 0, 1, 0]) = 3 \<and>
   spanning_tree 4 (tree_edges [- 1, 0, 0, 0]) \<and>
   weight unit_square_matrix (tree_edges [- 1, 0, 0, 0]) = 2 + sqrt 2"
proof -
  have sq: "square_matrix 4 unit_square_matrix"
    by (simp add: square_matrix_def unit_square_matrix_def)
  have sy: "symmetric_matrix 4 unit_square_matrix"
    by (simp add: symmetric_matrix_def unit_square_matrix_def All_less_Suc eval_nat_numeral)
  have star: "spanning_tree 4 (tree_edges [- 1, 0, 0, 0])"
  proof (rule rank_spanning_tree[where r = "\<lambda>v. v"])
    fix v :: nat assume "0 < v" "v < 4"
    then have "v = 1 \<or> v = 2 \<or> v = 3" by auto
    then show "nat ([- 1, 0, 0, 0] ! v) < 4 \<and> nat ([- 1, 0, 0, 0] ! v) < v"
      by auto
  qed simp_all
  have w1: "weight unit_square_matrix (tree_edges [- 1, 0, 1, 0]) = 3"
    by (simp add: weight_tree_edges upt_1_4_set unit_square_matrix_def)
  have w2: "weight unit_square_matrix (tree_edges [- 1, 0, 0, 0]) = 2 + sqrt 2"
    by (simp add: weight_tree_edges upt_1_4_set unit_square_matrix_def)
  from C2_primMST_minimum_spanning_tree[OF sq sy] primMST_unit_square star
  have "weight unit_square_matrix (tree_edges [- 1, 0, 1, 0]) \<le>
        weight unit_square_matrix (tree_edges [- 1, 0, 0, 0])"
    by auto
  then show ?thesis using primMST_unit_square star w1 w2 by simp
qed

subsection \<open>The number of vertices of odd degree\<close>

lemma findOdd_snoc:
  "findOddDegreeVertices (adj @ [xs]) =
     findOddDegreeVertices adj @ (if length xs mod 2 = 1 then [length adj] else [])"
proof -
  have "filter (\<lambda>i. length ((adj @ [xs]) ! i) mod 2 = 1) [0..<length adj] =
        filter (\<lambda>i. length (adj ! i) mod 2 = 1) [0..<length adj]"
    by (rule filter_cong) (simp_all add: nth_append)
  then show ?thesis by (simp add: findOddDegreeVertices_def)
qed

lemma findOdd_parity:
  "even (length (findOddDegreeVertices adj)) \<longleftrightarrow> even (sum_list (map length adj))"
proof (induction adj rule: rev_induct)
  case Nil
  show ?case by (simp add: findOddDegreeVertices_def)
next
  case (snoc xs adj)
  show ?case
  proof (cases "length xs mod 2 = 1")
    case True
    then have "odd (length xs)" by presburger
    then show ?thesis using snoc True by (simp add: findOdd_snoc)
  next
    case False
    then have "even (length xs)" by presburger
    then show ?thesis using snoc False by (simp add: findOdd_snoc)
  qed
qed

lemma fold_opt_buildAdj_sum:
  assumes "fold_opt
           (\<lambda>v adj.
              let p = parent ! v
              in if p < 0 \<or> int n \<le> p then None
                 else (let adj1 = adj[v := adj ! v @ [nat p]]
                       in Some (adj1[nat p := adj1 ! nat p @ [v]])))
           vs adj0 = Some adj"
    and "length adj0 = n" and "\<forall>v \<in> set vs. v < n"
  shows "length adj = n \<and> sum_list (map length adj) = sum_list (map length adj0) + 2 * length vs"
  using assms
proof (induction vs arbitrary: adj0)
  case Nil
  then show ?case by simp
next
  case (Cons v vs)
  define p where "p = parent ! v"
  have pr: "\<not> (p < 0 \<or> int n \<le> p)"
    using Cons.prems(1) by (auto simp: p_def Let_def split: if_splits)
  define adj1 where "adj1 = adj0[v := adj0 ! v @ [nat p]]"
  define adj2 where "adj2 = adj1[nat p := adj1 ! nat p @ [v]]"
  have rest: "fold_opt
           (\<lambda>v adj.
              let p = parent ! v
              in if p < 0 \<or> int n \<le> p then None
                 else (let adj1 = adj[v := adj ! v @ [nat p]]
                       in Some (adj1[nat p := adj1 ! nat p @ [v]])))
           vs adj2 = Some adj"
    using Cons.prems(1) pr by (simp add: p_def[symmetric] Let_def adj1_def adj2_def)
  have v: "v < length adj0" using Cons.prems(2,3) by simp
  have "nat p < n" using pr by linarith
  then have np: "nat p < length adj1" using Cons.prems(2) by (simp add: adj1_def)
  have "sum_list (map length adj1) = sum_list (map length adj0) + 1"
    using sum_length_update[OF v, of "adj0 ! v @ [nat p]"] by (simp add: adj1_def)
  moreover have "sum_list (map length adj2) = sum_list (map length adj1) + 1"
    using sum_length_update[OF np, of "adj1 ! nat p @ [v]"] by (simp add: adj2_def)
  moreover have "length adj2 = n" using Cons.prems(2) by (simp add: adj2_def adj1_def)
  ultimately show ?case
    using Cons.IH[OF rest] Cons.prems(3) by simp
qed

lemma buildAdjFromParent_sum:
  assumes "buildAdjFromParent parent = Some adj"
  shows "length adj = length parent"
    and "sum_list (map length adj) = 2 * (length parent - 1)"
proof -
  have "sum_list (map length (replicate (length parent) ([] :: nat list))) = 0"
    by (induction "length parent") (simp_all add: sum_list_replicate)
  then show "length adj = length parent"
    and "sum_list (map length adj) = 2 * (length parent - 1)"
    using fold_opt_buildAdj_sum[of parent "length parent" "[1..<length parent]"
        "replicate (length parent) []" adj] assms
    by (simp_all add: buildAdjFromParent_def Let_def)
qed

lemma symmetric_sum_even:
  fixes c :: "nat \<Rightarrow> nat \<Rightarrow> nat"
  assumes "\<And>u v. u < n \<Longrightarrow> v < n \<Longrightarrow> c u v = c v u" and "\<And>v. v < n \<Longrightarrow> even (c v v)"
  shows "even (\<Sum>u < n. \<Sum>v < n. c u v)"
  using assms
proof (induction n)
  case 0
  then show ?case by simp
next
  case (Suc n)
  have "(\<Sum>u < Suc n. \<Sum>v < Suc n. c u v) =
        (\<Sum>u < n. \<Sum>v < n. c u v) + (\<Sum>u < n. c u n) + (\<Sum>v < n. c n v) + c n n"
    by (simp add: sum.distrib)
  moreover have "(\<Sum>u < n. c u n) = (\<Sum>v < n. c n v)"
    by (rule sum.cong) (simp_all add: Suc.prems(1))
  moreover have "even (\<Sum>u < n. \<Sum>v < n. c u v)"
    by (rule Suc.IH) (simp_all add: Suc.prems)
  moreover have "even (c n n)" by (simp add: Suc.prems(2))
  ultimately show ?case by simp
qed

lemma symmetric_adj_sum_even:
  assumes "adj_in_range adj" and "symmetric_adj adj"
    and "\<forall>v < length adj. even (count_list (adj ! v) v)"
  shows "even (sum_list (map length adj))"
proof -
  define n where "n = length adj"
  have "length (adj ! u) = (\<Sum>v < n. count_list (adj ! u) v)" if "u < n" for u
  proof -
    have "set (adj ! u) \<subseteq> {..<n}"
      using assms(1) that by (auto simp: adj_in_range_def n_def)
    then show ?thesis by (simp add: sum_count_set)
  qed
  then have "sum_list (map length adj) = (\<Sum>u < n. \<Sum>v < n. count_list (adj ! u) v)"
    by (simp add: sum_list_sum_nth n_def atLeast0LessThan)
  moreover have "even (\<Sum>u < n. \<Sum>v < n. count_list (adj ! u) v)"
    using assms(2,3) by (intro symmetric_sum_even) (simp_all add: symmetric_adj_def n_def)
  ultimately show ?thesis by simp
qed

text \<open>
  Claim C6, as the program has it. \<open>findOddDegreeVertices\<close> tests the parity of the size
  of each list, so the parity of the number of vertices it returns is the parity of the
  total number of stored entries. That number is even for the adjacency that
  \<open>buildAdjFromParent\<close> builds from any parent array (each edge is stored at both of its
  endpoints), and for any symmetric adjacency with entries in range in which no vertex
  lists itself an odd number of times (in particular when no vertex lists itself).
\<close>

theorem C6_odd_vertices_even:
  "(buildAdjFromParent parent = Some adj \<longrightarrow> even (length (findOddDegreeVertices adj))) \<and>
   (adj_in_range adj' \<and> symmetric_adj adj' \<and> (\<forall>v < length adj'. even (count_list (adj' ! v) v))
      \<longrightarrow> even (length (findOddDegreeVertices adj'))) \<and>
   (even (length (findOddDegreeVertices adj'')) \<longleftrightarrow> even (sum_list (map length adj'')))"
  using buildAdjFromParent_sum(2)[of parent adj] symmetric_adj_sum_even[of adj']
  by (simp add: findOdd_parity)

theorem C6_witness:
  "buildAdjFromParent [- 1, 0, 1, 0] = Some [[1, 3], [0, 2], [1], [0]] \<and>
   findOddDegreeVertices [[1, 3], [0, 2], [1], [0]] = [2, 3] \<and>
   symmetric_adj [[1], [0, 2, 2], [1, 1]] \<and>
   even (length (findOddDegreeVertices [[1], [0, 2, 2], [1, 1]]))"
proof -
  have r: "adj_in_range [[1], [0, 2, 2], [1, 1]]"
    by (simp add: adj_in_range_def)
  have s: "symmetric_adj [[1], [0, 2, 2], [1, 1]]"
    by (simp add: symmetric_adj_def All_less_Suc eval_nat_numeral)
  have l: "\<forall>v < length [[1], [0, 2, 2], [1, 1::nat]]. even (count_list ([[1], [0, 2, 2], [1, 1]] ! v) v)"
    by (simp add: All_less_Suc eval_nat_numeral)
  from C6_odd_vertices_even[of "[- 1, 0, 1, 0]" "[[1, 3], [0, 2], [1], [0]]"
      "[[1], [0, 2, 2], [1, 1]]" "[]"] r s l buildAdj_unit_square
  have "even (length (findOddDegreeVertices [[1], [0, 2, 2], [1, 1]]))"
    and "even (length (findOddDegreeVertices [[1, 3], [0, 2], [1], [0]]))"
    by blast+
  then show ?thesis using s buildAdj_unit_square findOdd_unit_square by simp
qed

theorem C6_counterexample:
  "findOddDegreeVertices [[1], []] = [0] \<and>
   symmetric_adj [[0]] \<and> adj_in_range [[0]] \<and> findOddDegreeVertices [[0]] = [0]"
  by (simp add: findOddDegreeVertices_def symmetric_adj_def adj_in_range_def upt_rec[of 0 2]
      upt_rec[of 1 2])

subsection \<open>Adjacency lists built from edges\<close>

lemma length_push_edge [simp]: "length (push_edge adj e) = length adj"
  by (cases e) (simp add: push_edge_def Let_def)

lemma length_add_edges [simp]: "length (add_edges adj E) = length adj"
  unfolding add_edges_def by (induction E arbitrary: adj) simp_all

lemma add_edges_Nil [simp]: "add_edges adj [] = adj"
  by (simp add: add_edges_def)

lemma add_edges_Cons: "add_edges adj (e # E) = add_edges (push_edge adj e) E"
  by (simp add: add_edges_def)

lemma add_edges_append: "add_edges adj (E @ E') = add_edges (add_edges adj E) E'"
  by (simp add: add_edges_def)

lemma edge_nbrs_Nil [simp]: "edge_nbrs [] x = {#}"
  by (simp add: edge_nbrs_def)

lemma edge_nbrs_append: "edge_nbrs (E @ E') x = edge_nbrs E x + edge_nbrs E' x"
  by (simp add: edge_nbrs_def)

lemma edge_nbrs_Cons: "edge_nbrs (e # E) x = edge_nbrs [e] x + edge_nbrs E x"
  using edge_nbrs_append[of "[e]" E x] by simp

lemma edge_nbrs_single:
  "edge_nbrs [(u, v)] x = (if u = x then {#v#} else {#}) + (if v = x then {#u#} else {#})"
  by (simp add: edge_nbrs_def)

lemma push_edge_nth:
  assumes "u < length adj" and "v < length adj"
  shows "mset (push_edge adj (u, v) ! x) = mset (adj ! x) + edge_nbrs [(u, v)] x"
proof (cases "x < length adj")
  case True
  then show ?thesis using assms
    by (auto simp: push_edge_def Let_def nth_list_update edge_nbrs_single)
next
  case False
  then have "push_edge adj (u, v) ! x = adj ! x"
    using assms by (simp add: push_edge_def Let_def)
  moreover have "u \<noteq> x" "v \<noteq> x" using False assms by auto
  ultimately show ?thesis by (simp add: edge_nbrs_single)
qed

lemma add_edges_nth:
  assumes "\<forall>(u, v) \<in> set E. u < length adj \<and> v < length adj"
  shows "mset (add_edges adj E ! x) = mset (adj ! x) + edge_nbrs E x"
  using assms
proof (induction E arbitrary: adj)
  case Nil
  then show ?case by simp
next
  case (Cons e E)
  obtain u v where e: "e = (u, v)" by (cases e)
  have uv: "u < length adj" "v < length adj" using Cons.prems e by auto
  have "\<forall>(u, v) \<in> set E. u < length (push_edge adj e) \<and> v < length (push_edge adj e)"
    using Cons.prems by simp
  from Cons.IH[OF this] push_edge_nth[OF uv, of x]
  show ?case using edge_nbrs_Cons[of e E x] by (simp add: add_edges_Cons e)
qed

lemma count_mset_map: "count (mset (map f E)) x = length (filter (\<lambda>e. f e = x) E)"
  by (induction E) auto

lemma size_edge_nbrs:
  "size (edge_nbrs E x) = count (mset (map fst E) + mset (map snd E)) x"
  by (simp add: edge_nbrs_def count_mset_map del: mset_map)

lemma set_edge_nbrs:
  "y \<in># edge_nbrs E x \<longleftrightarrow> (x, y) \<in> set E \<or> (y, x) \<in> set E"
  by (force simp: edge_nbrs_def)

lemma buildAdj_fold:
  "fold_opt
     (\<lambda>v adj.
        let p = parent ! v
        in if p < 0 \<or> int n \<le> p then None
           else (let adj1 = adj[v := adj ! v @ [nat p]]
                 in Some (adj1[nat p := adj1 ! nat p @ [v]])))
     vs adj0 =
   (if \<forall>v \<in> set vs. 0 \<le> parent ! v \<and> parent ! v < int n
    then Some (add_edges adj0 (map (\<lambda>v. (v, nat (parent ! v))) vs)) else None)"
proof (induction vs arbitrary: adj0)
  case Nil
  show ?case by simp
next
  case (Cons v vs)
  show ?case
  proof (cases "0 \<le> parent ! v \<and> parent ! v < int n")
    case True
    then have "\<not> (parent ! v < 0 \<or> int n \<le> parent ! v)" by linarith
    then show ?thesis using True Cons.IH
      by (simp add: Let_def add_edges_Cons push_edge_def)
  next
    case False
    then have "parent ! v < 0 \<or> int n \<le> parent ! v" by linarith
    then show ?thesis using False by (auto simp: Let_def)
  qed
qed

lemma buildAdjFromParent_eq:
  "buildAdjFromParent parent =
     (if \<forall>v. 1 \<le> v \<and> v < length parent \<longrightarrow> 0 \<le> parent ! v \<and> parent ! v < int (length parent)
      then Some (add_edges (replicate (length parent) []) (tree_edge_list parent)) else None)"
proof -
  have "(\<forall>v \<in> set [1..<length parent]. 0 \<le> parent ! v \<and> parent ! v < int (length parent)) \<longleftrightarrow>
        (\<forall>v. 1 \<le> v \<and> v < length parent \<longrightarrow> 0 \<le> parent ! v \<and> parent ! v < int (length parent))"
    by auto
  then show ?thesis
    unfolding buildAdjFromParent_def tree_edge_list_def
    using buildAdj_fold[of parent "length parent" "[1..<length parent]"
        "replicate (length parent) []"]
    by (simp only: Let_def)
qed


subsection \<open>The greedy matching\<close>

lemma fold_upt_Suc_from: "a \<le> m \<Longrightarrow> fold f [a..<Suc m] s = f m (fold f [a..<m] s)"
  by simp

lemma match_scan_prefix:
  assumes "fold (match_scan_step odds d used i) [a..<m] (PosInf, - 1) = (best, bj)"
  shows "(bj = - 1 \<and> best = PosInf \<and> (\<forall>j. a \<le> j \<and> j < m \<longrightarrow> used ! j)) \<or>
         (0 \<le> bj \<and> a \<le> nat bj \<and> nat bj < m \<and> \<not> used ! nat bj \<and> best \<noteq> PosInf)"
  using assms
proof (induction m arbitrary: best bj)
  case 0
  then show ?case by simp
next
  case (Suc m)
  show ?case
  proof (cases "a \<le> m")
    case False
    then have "[a..<Suc m] = []" by simp
    then show ?thesis using Suc.prems False by auto
  next
    case True
    obtain b0 j0 where f: "fold (match_scan_step odds d used i) [a..<m] (PosInf, - 1) = (b0, j0)"
      by (cases "fold (match_scan_step odds d used i) [a..<m] (PosInf, - 1)")
    have st: "match_scan_step odds d used i m (b0, j0) = (best, bj)"
      using Suc.prems f True by (simp only: fold_upt_Suc_from)
    note IH = Suc.IH[OF f]
    show ?thesis
    proof (cases "\<not> used ! m \<and> dbl_less (Finite (d ! (odds ! i) ! (odds ! m))) b0")
      case t: True
      then have "best = Finite (d ! (odds ! i) ! (odds ! m))" "bj = int m"
        using st by (simp_all add: match_scan_step_def)
      then show ?thesis using t True by simp
    next
      case False
      then have bu: "best = b0" "bj = j0"
        using st by (auto simp add: match_scan_step_def)
      from IH show ?thesis
      proof
        assume a: "j0 = - 1 \<and> b0 = PosInf \<and> (\<forall>j. a \<le> j \<and> j < m \<longrightarrow> used ! j)"
        then have "used ! m" using False by simp
        then show ?thesis using a bu by (auto simp: less_Suc_eq)
      next
        assume "0 \<le> j0 \<and> a \<le> nat j0 \<and> nat j0 < m \<and> \<not> used ! nat j0 \<and> b0 \<noteq> PosInf"
        then show ?thesis using bu by auto
      qed
    qed
  qed
qed

lemma match_scan_finds:
  assumes "\<exists>j. i < j \<and> j < length odds \<and> \<not> used ! j"
  shows "\<exists>best b. match_scan odds d used i = (best, int b) \<and> i < b \<and> b < length odds \<and>
           \<not> used ! b"
proof -
  obtain best bj where sc: "match_scan odds d used i = (best, bj)"
    by (cases "match_scan odds d used i")
  from match_scan_prefix[of odds d used i "i + 1" "length odds" best bj] sc assms
  have "0 \<le> bj \<and> i + 1 \<le> nat bj \<and> nat bj < length odds \<and> \<not> used ! nat bj"
    unfolding match_scan_def by (auto simp: Suc_le_eq)
  then show ?thesis using sc by (intro exI[of _ best] exI[of _ "nat bj"]) simp
qed

text \<open>The outer loop, from position \<open>i\<close> on, with the pairs that it adds.\<close>

lemma match_loop:
  assumes "length used = length odds"
    and "\<forall>j < i. used ! j"
    and "even (card {j. j < length odds \<and> \<not> used ! j})"
    and "\<forall>j < length odds. odds ! j < length adj"
    and "i \<le> length odds"
  shows "\<exists>used' pairs.
           fold_opt (match_iter odds d) [i..<length odds] (used, adj) =
             Some (used', add_edges adj pairs) \<and>
           (\<forall>(a, b) \<in> set pairs. a < length adj \<and> b < length adj) \<and>
           mset (map fst pairs) + mset (map snd pairs) =
             image_mset (\<lambda>j. odds ! j) (mset_set {j. j < length odds \<and> \<not> used ! j})"
  using assms
proof (induction "length odds - i" arbitrary: i used adj)
  case 0
  then have i: "i = length odds" by simp
  then have e: "{j. j < length odds \<and> \<not> used ! j} = {}" using "0.prems"(2) by auto
  have m: "mset_set {j. j < length odds \<and> \<not> used ! j} = {#}" unfolding e by simp
  show ?case unfolding m using i by (intro exI[of _ used] exI[of _ "[]"]) simp
next
  case (Suc t)
  let ?k = "length odds"
  let ?U = "{j. j < ?k \<and> \<not> used ! j}"
  have ik: "i < ?k" using Suc.hyps(2) by simp
  have up: "[i..<?k] = i # [Suc i..<?k]" using ik by (simp add: upt_conv_Cons)
  have t: "t = ?k - Suc i" using Suc.hyps(2) by simp
  have finU: "finite ?U" by simp
  show ?case
  proof (cases "used ! i")
    case True
    have "\<forall>j < Suc i. used ! j" using Suc.prems(2) True by (simp add: less_Suc_eq)
    from Suc.hyps(1)[OF t Suc.prems(1) this Suc.prems(3,4)] ik
    show ?thesis using True by (simp add: up match_iter_def)
  next
    case False
    have iU: "i \<in> ?U" using ik False by simp
    have "?U \<noteq> {i}"
    proof
      assume "?U = {i}"
      then have "card ?U = 1" by simp
      then show False using Suc.prems(3) by simp
    qed
    then obtain j where j: "j \<in> ?U" "j \<noteq> i" using iU by blast
    then have "i < j" using Suc.prems(2) by (metis (mono_tags, lifting) linorder_neqE_nat mem_Collect_eq)
    then have "\<exists>j. i < j \<and> j < ?k \<and> \<not> used ! j" using j(1) by auto
    from match_scan_finds[OF this, of d]
    obtain best b where b: "match_scan odds d used i = (best, int b)" "i < b" "b < ?k"
      "\<not> used ! b" by blast
    define used1 where "used1 = used[i := True, b := True]"
    define u where "u = odds ! i"
    define v where "v = odds ! b"
    have uv: "u < length adj" "v < length adj"
      using Suc.prems(4) ik b(3) by (simp_all add: u_def v_def)
    have it: "match_iter odds d i (used, adj) = Some (used1, push_edge adj (u, v))"
      using False b(1) uv
      by (simp add: match_iter_def used1_def Let_def push_edge_def u_def[symmetric] v_def[symmetric])
    have l1: "length used1 = ?k" using Suc.prems(1) by (simp add: used1_def)
    have u1: "used1 ! j \<longleftrightarrow> j = i \<or> j = b \<or> used ! j" if "j < ?k" for j
      using that Suc.prems(1) ik b(3) by (auto simp: used1_def nth_list_update)
    have a1: "\<forall>j < Suc i. used1 ! j"
      using Suc.prems(2) u1 ik by (auto simp: less_Suc_eq)
    let ?U1 = "{j. j < ?k \<and> \<not> used1 ! j}"
    have U1: "?U1 = ?U - {i, b}" using u1 by auto
    have bU: "b \<in> ?U" using b(3,4) by simp
    have Ueq: "?U = insert i (insert b ?U1)" using U1 iU bU by auto
    have nin: "i \<notin> insert b ?U1" "b \<notin> ?U1" using U1 b(2) by auto
    have "card ?U = Suc (Suc (card ?U1))"
      using nin by (subst Ueq) (simp add: card_insert_if)
    then have e1: "even (card ?U1)" using Suc.prems(3) by simp
    have r1: "\<forall>j < ?k. odds ! j < length (push_edge adj (u, v))"
      using Suc.prems(4) by simp
    from Suc.hyps(1)[OF t l1 a1 e1 r1] ik
    obtain used' pairs where IH:
      "fold_opt (match_iter odds d) [Suc i..<?k] (used1, push_edge adj (u, v)) =
         Some (used', add_edges (push_edge adj (u, v)) pairs)"
      "\<forall>(a, b) \<in> set pairs. a < length adj \<and> b < length adj"
      "mset (map fst pairs) + mset (map snd pairs) = image_mset (\<lambda>j. odds ! j) (mset_set ?U1)"
      by auto
    have "mset_set ?U = {#i, b#} + mset_set ?U1"
      using nin by (subst Ueq) simp
    then have "mset (map fst ((u, v) # pairs)) + mset (map snd ((u, v) # pairs)) =
        image_mset (\<lambda>j. odds ! j) (mset_set ?U)"
      using IH(3) by (simp add: u_def v_def)
    moreover have "fold_opt (match_iter odds d) [i..<?k] (used, adj) =
        Some (used', add_edges adj ((u, v) # pairs))"
      using it IH(1) by (simp add: up add_edges_Cons)
    moreover have "\<forall>(a, b) \<in> set ((u, v) # pairs). a < length adj \<and> b < length adj"
      using IH(2) uv by simp
    ultimately show ?thesis by blast
  qed
qed


lemma set_findOdd:
  "set (findOddDegreeVertices adj) = {i. i < length adj \<and> odd (length (adj ! i))}"
  by (auto simp: findOddDegreeVertices_def odd_iff_mod_2_eq_one)

lemma distinct_findOdd: "distinct (findOddDegreeVertices adj)"
  by (simp add: findOddDegreeVertices_def)

lemma greedy_matching:
  assumes "odds = findOddDegreeVertices adj" and "even (length odds)"
  shows "\<exists>adj' pairs.
           addGreedyPerfectMatching odds d adj = Some adj' \<and> adj' = add_edges adj pairs \<and>
           (\<forall>(a, b) \<in> set pairs. a < length adj \<and> b < length adj \<and> a \<noteq> b) \<and>
           mset (map fst pairs) + mset (map snd pairs) = mset odds \<and>
           2 * length pairs = length odds \<and>
           length adj' = length adj \<and> (\<forall>v < length adj. even (length (adj' ! v))) \<and>
           (odds = [] \<longrightarrow> pairs = [] \<and> adj' = adj)"
proof -
  let ?k = "length odds"
  have dist: "distinct odds" using assms(1) by (simp add: distinct_findOdd)
  have mem: "v \<in> set odds \<longleftrightarrow> v < length adj \<and> odd (length (adj ! v))" for v
    using assms(1) by (simp add: set_findOdd)
  have rng: "\<forall>j < ?k. odds ! j < length adj"
    using mem by (metis nth_mem)
  have "\<exists>pairs. addGreedyPerfectMatching odds d adj = Some (add_edges adj pairs) \<and>
          (\<forall>(a, b) \<in> set pairs. a < length adj \<and> b < length adj) \<and>
          mset (map fst pairs) + mset (map snd pairs) = mset odds \<and>
          (odds = [] \<longrightarrow> pairs = [])"
  proof (cases "?k = 0")
    case True
    then show ?thesis
      by (intro exI[of _ "[]"]) (simp add: addGreedyPerfectMatching_def)
  next
    case False
    have U: "{j. j < ?k \<and> \<not> replicate ?k False ! j} = {0..<?k}" by auto
    have "mset_set {0..<?k} = mset [0..<?k]" by (simp add: mset_upt)
    then have im: "image_mset (\<lambda>j. odds ! j) (mset_set {0..<?k}) = mset odds"
      by (metis map_nth mset_map)
    from match_loop[of "replicate ?k False" odds 0 adj d] assms(2) rng
    obtain used' pairs where
      "fold_opt (match_iter odds d) [0..<?k] (replicate ?k False, adj) =
         Some (used', add_edges adj pairs)"
      "\<forall>(a, b) \<in> set pairs. a < length adj \<and> b < length adj"
      "mset (map fst pairs) + mset (map snd pairs) = mset odds"
      unfolding U im by auto
    then show ?thesis using False
      by (intro exI[of _ pairs]) (simp add: addGreedyPerfectMatching_def)
  qed
  then obtain pairs where p:
    "addGreedyPerfectMatching odds d adj = Some (add_edges adj pairs)"
    "\<forall>(a, b) \<in> set pairs. a < length adj \<and> b < length adj"
    "mset (map fst pairs) + mset (map snd pairs) = mset odds"
    "odds = [] \<longrightarrow> pairs = []"
    by blast
  have cnt: "count (mset (map fst pairs) + mset (map snd pairs)) v = (if v \<in> set odds then 1 else 0)"
    for v
    unfolding p(3) using dist by (simp add: distinct_count_atmost_1)
  have ne: "a \<noteq> b" if "(a, b) \<in> set pairs" for a b
  proof
    assume "a = b"
    then have "a \<in> set (map fst pairs)" "a \<in> set (map snd pairs)" using that by force+
    then have "1 \<le> count (mset (map fst pairs)) a" "1 \<le> count (mset (map snd pairs)) a"
      by (simp_all add: Suc_le_eq del: mset_map)
    then have "2 \<le> count (mset (map fst pairs) + mset (map snd pairs)) a"
      by (simp only: count_union)
    moreover have "count (mset (map fst pairs) + mset (map snd pairs)) a \<le> 1"
      by (simp only: cnt split: if_splits) simp
    ultimately show False by linarith
  qed
  have ev: "even (length (add_edges adj pairs ! v))" if "v < length adj" for v
  proof -
    have "mset (add_edges adj pairs ! v) = mset (adj ! v) + edge_nbrs pairs v"
      using p(2) by (rule add_edges_nth)
    then have "size (mset (add_edges adj pairs ! v)) = size (mset (adj ! v)) + size (edge_nbrs pairs v)"
      by simp
    moreover have "size (edge_nbrs pairs v) = (if v \<in> set odds then 1 else 0)"
      by (simp only: size_edge_nbrs cnt)
    ultimately have "length (add_edges adj pairs ! v) =
        length (adj ! v) + (if v \<in> set odds then 1 else 0)"
      by simp
    then show ?thesis using mem[of v] that by simp
  qed
  have "size (mset (map fst pairs) + mset (map snd pairs)) = size (mset odds)"
    by (simp only: p(3))
  then have sz: "2 * length pairs = length odds" by simp
  show ?thesis
    using p(1,2,3,4) ne ev sz
    by (intro exI[of _ "add_edges adj pairs"] exI[of _ pairs]) auto
qed



subsection \<open>Hierholzer's algorithm returns an Eulerian circuit\<close>

lemma arcs_simps [simp]:
  "arcs [] = []" "arcs [x] = []" "arcs (x # y # ys) = (x, y) # arcs (y # ys)"
  by (simp_all add: arcs_def)

lemma arcs_snoc: "xs \<noteq> [] \<Longrightarrow> arcs (xs @ [v]) = arcs xs @ [(last xs, v)]"
proof (induction xs)
  case Nil
  then show ?case by simp
next
  case (Cons x xs)
  then show ?case by (cases xs) simp_all
qed

lemma arcs_Cons_hd: "ys \<noteq> [] \<Longrightarrow> arcs (u # ys) = (u, hd ys) # arcs ys"
  by (cases ys) simp_all

lemma length_arcs: "length (arcs w) = length w - 1"
  by (simp add: arcs_def)

lemma hierholzer_invD:
  assumes "hierholzer_inv G start a (adj, stack, circuit)"
  shows "length adj = length G" and "adj_in_range adj" and "stack_in_range adj stack"
    and "symmetric_adj adj" and "\<forall>x < length adj. x \<notin> set (adj ! x)"
    and "\<forall>x \<in> set circuit. x < length adj \<and> adj ! x = []"
    and "stack \<noteq> [] \<longrightarrow> hd stack = start" and "circuit = [] \<longrightarrow> a = start \<and> stack \<noteq> []"
    and "circuit \<noteq> [] \<longrightarrow> hd circuit = start"
    and "stack = [] \<longrightarrow> last circuit = start"
    and "stack \<noteq> [] \<longrightarrow>
           (\<forall>x < length adj. odd (length (adj ! x)) \<longleftrightarrow> (x = a) \<noteq> (x = last stack))"
    and "\<forall>x < length adj.
           mset (G ! x) =
             mset (adj ! x) + edge_nbrs (arcs stack) x + edge_nbrs (arcs (rev circuit)) x +
             edge_nbrs (if circuit = [] \<or> stack = [] then [] else [(a, last circuit)]) x"
  using assms unfolding hierholzer_inv_def prod.case by (auto simp only:)

lemma hierholzer_pop_inv:
  assumes inv: "hierholzer_inv G start a (adj, stack, circuit)"
    and st: "stack \<noteq> []" and em: "adj ! last stack = []"
  shows "\<exists>a'. hierholzer_inv G start a' (adj, butlast stack, circuit @ [last stack])"
proof -
  define u where "u = last stack"
  define s' where "s' = butlast stack"
  define n where "n = length adj"
  have stack: "stack = s' @ [u]" using st by (simp add: s'_def u_def)
  note D = hierholzer_invD[OF inv]
  have len: "length adj = length G" and rng: "adj_in_range adj" "stack_in_range adj stack"
    and sym: "symmetric_adj adj" and lf: "\<forall>x < length adj. x \<notin> set (adj ! x)"
    and cz: "\<forall>x \<in> set circuit. x < length adj \<and> adj ! x = []"
    and acc: "\<forall>x < length adj.
           mset (G ! x) =
             mset (adj ! x) + edge_nbrs (arcs stack) x + edge_nbrs (arcs (rev circuit)) x +
             edge_nbrs (if circuit = [] \<or> stack = [] then [] else [(a, last circuit)]) x"
    by (rule D)+
  have hs: "hd stack = start" using D(7) st by simp
  have c0: "circuit = [] \<longrightarrow> a = start" using D(8) by simp
  have hc: "circuit \<noteq> [] \<longrightarrow> hd circuit = start" by (rule D(9))
  have par: "\<forall>x < length adj. odd (length (adj ! x)) \<longleftrightarrow> (x = a) \<noteq> (x = last stack)"
    using D(11) st by simp
  have un: "u < length adj" using rng(2) st by (simp add: stack_in_range_def u_def)
  have au: "a = u"
    using par[rule_format, OF un] em by (simp add: u_def)
  define a' where "a' = (if s' = [] then u else last s')"
  define lold where "lold = (if circuit = [] then [] else [(u, last circuit)])"
  define lnew where "lnew = (if s' = [] then [] else [(last s', u)])"
  have A1: "arcs stack = arcs s' @ lnew"
    unfolding stack lnew_def by (cases "s' = []") (simp_all add: arcs_snoc)
  have A2: "arcs (u # rev circuit) = lold @ arcs (rev circuit)"
    unfolding lold_def by (cases "circuit = []") (simp_all add: arcs_Cons_hd hd_rev)
  have acc': "mset (G ! x) =
             mset (adj ! x) + edge_nbrs (arcs s') x + edge_nbrs (arcs (rev (circuit @ [u]))) x +
             edge_nbrs (if circuit @ [u] = [] \<or> s' = [] then [] else [(a', last (circuit @ [u]))]) x"
    if "x < length adj" for x
  proof -
    have "(if circuit = [] \<or> stack = [] then [] else [(a, last circuit)]) = lold"
      using st au by (simp add: lold_def)
    moreover have "(if circuit @ [u] = [] \<or> s' = [] then [] else [(a', last (circuit @ [u]))]) = lnew"
      by (simp add: lnew_def a'_def)
    ultimately show ?thesis
      using acc[rule_format, OF that] by (simp add: A1 A2 edge_nbrs_append)
  qed
  have r': "stack_in_range adj s'"
    using rng(2) unfolding stack by (simp add: stack_in_range_def)
  have h': "s' \<noteq> [] \<longrightarrow> hd s' = start" using hs unfolding stack by (cases s') simp_all
  have hc': "hd (circuit @ [u]) = start"
    using hc c0 au by (cases circuit) simp_all
  have l': "s' = [] \<longrightarrow> last (circuit @ [u]) = start" using hs unfolding stack by auto
  have p': "s' \<noteq> [] \<longrightarrow> (\<forall>x < length adj. odd (length (adj ! x)) \<longleftrightarrow> (x = a') \<noteq> (x = last s'))"
    using par au by (simp add: a'_def u_def)
  have cz': "\<forall>x \<in> set (circuit @ [u]). x < length adj \<and> adj ! x = []"
    using cz un em by (simp add: u_def)
  have "hierholzer_inv G start a' (adj, s', circuit @ [u])"
    unfolding hierholzer_inv_def using len rng(1) r' sym lf cz' h' hc' l' p' acc'
    by simp
  then show ?thesis unfolding s'_def u_def by blast
qed


lemma hierholzer_explore_inv:
  assumes inv: "hierholzer_inv G start a (adj, stack, circuit)"
    and st: "stack \<noteq> []" and ne: "adj ! last stack \<noteq> []"
  shows "last (adj ! last stack) < length adj \<and>
         hierholzer_inv G start a
           ((adj[last stack := butlast (adj ! last stack)])
              [last (adj ! last stack) :=
                 remove1 (last stack)
                   ((adj[last stack := butlast (adj ! last stack)]) ! last (adj ! last stack))],
            stack @ [last (adj ! last stack)], circuit)"
proof -
  define u where "u = last stack"
  define v where "v = last (adj ! u)"
  define adj1 where "adj1 = adj[u := butlast (adj ! u)]"
  define adj2 where "adj2 = adj1[v := remove1 u (adj1 ! v)]"
  note D = hierholzer_invD[OF inv]
  have len: "length adj = length G" and rng: "adj_in_range adj" "stack_in_range adj stack"
    and sym: "symmetric_adj adj" and lf: "\<forall>x < length adj. x \<notin> set (adj ! x)"
    and cz: "\<forall>x \<in> set circuit. x < length adj \<and> adj ! x = []"
    and acc: "\<forall>x < length adj.
           mset (G ! x) =
             mset (adj ! x) + edge_nbrs (arcs stack) x + edge_nbrs (arcs (rev circuit)) x +
             edge_nbrs (if circuit = [] \<or> stack = [] then [] else [(a, last circuit)]) x"
    by (rule D)+
  have hs: "hd stack = start" using D(7) st by simp
  have c0: "circuit = [] \<longrightarrow> a = start" using D(8) by simp
  have hc: "circuit \<noteq> [] \<longrightarrow> hd circuit = start" by (rule D(9))
  have par: "\<forall>x < length adj. odd (length (adj ! x)) \<longleftrightarrow> (x = a) \<noteq> (x = last stack)"
    using D(11) st by simp
  have un: "u < length adj" using rng(2) st by (simp add: stack_in_range_def u_def)
  have ne': "adj ! u \<noteq> []" using ne by (simp add: u_def)
  have vin: "v \<in> set (adj ! u)" using ne' by (simp add: v_def)
  have vn: "v < length adj" using rng(1) un vin by (auto simp: adj_in_range_def)
  have uv: "u \<noteq> v" using lf un vin by auto
  have "count_list (adj ! u) v \<noteq> 0" using vin by (simp add: count_list_0_iff)
  then have "count_list (adj ! v) u \<noteq> 0"
    using sym un vn by (simp add: symmetric_adj_def)
  then have uin: "u \<in> set (adj ! v)" by (simp add: count_list_0_iff)
  have a1v: "adj1 ! v = adj ! v" using uv by (simp add: adj1_def)
  have nth2: "adj2 ! x = (if x = v then remove1 u (adj ! v)
                else if x = u then butlast (adj ! u) else adj ! x)" if "x < length adj" for x
    using that un vn by (simp add: adj2_def adj1_def a1v[unfolded adj1_def] nth_list_update)
  have l2: "length adj2 = length adj" by (simp add: adj2_def adj1_def)
  have mu: "mset (adj ! u) = mset (butlast (adj ! u)) + {#v#}"
    using ne' by (metis append_butlast_last_id mset.simps(1) mset.simps(2) mset_append
        union_mset_add_mset_right add.right_neutral v_def)
  have mv: "mset (adj ! v) = mset (remove1 u (adj ! v)) + {#u#}"
    using uin by simp
  have ms: "mset (adj ! x) = mset (adj2 ! x) + edge_nbrs [(u, v)] x" if "x < length adj" for x
    using nth2[OF that] mu mv uv by (auto simp: edge_nbrs_single)
  have sub: "set (adj2 ! x) \<subseteq> set (adj ! x)" if "x < length adj" for x
    using ms[OF that] by (metis mset_subset_eq_add_left set_mset_mono set_mset_mset)
  have r2: "adj_in_range adj2"
    unfolding adj_in_range_def
  proof (intro ballI)
    fix xs w assume "xs \<in> set adj2" "w \<in> set xs"
    then obtain x where x: "x < length adj" "xs = adj2 ! x"
      by (metis in_set_conv_nth l2)
    then have "w \<in> set (adj ! x)" using sub \<open>w \<in> set xs\<close> by blast
    then show "w < length adj2" using rng(1) x(1) l2 by (auto simp: adj_in_range_def)
  qed
  have s2: "stack_in_range adj2 (stack @ [v])"
    using rng(2) vn l2 by (simp add: stack_in_range_def)
  have lf2: "\<forall>x < length adj2. x \<notin> set (adj2 ! x)"
    using lf sub l2 by auto
  have sy2: "symmetric_adj adj2"
    unfolding symmetric_adj_def
  proof (intro allI impI)
    fix x y assume xy: "x < length adj2" "y < length adj2"
    have "count (mset (adj ! x)) y = count (mset (adj2 ! x)) y + count (edge_nbrs [(u, v)] x) y"
      using ms[of x] xy l2 by simp
    moreover have "count (mset (adj ! y)) x = count (mset (adj2 ! y)) x + count (edge_nbrs [(u, v)] y) x"
      using ms[of y] xy l2 by simp
    moreover have "count (mset (adj ! x)) y = count (mset (adj ! y)) x"
      using sym xy l2 by (simp add: symmetric_adj_def count_mset)
    moreover have "count (edge_nbrs [(u, v)] x) y = count (edge_nbrs [(u, v)] y) x"
      by (auto simp: edge_nbrs_single)
    ultimately have "count (mset (adj2 ! x)) y = count (mset (adj2 ! y)) x" by linarith
    then show "count_list (adj2 ! x) y = count_list (adj2 ! y) x" by (simp add: count_mset)
  qed
  have cz2: "\<forall>x \<in> set circuit. x < length adj2 \<and> adj2 ! x = []"
  proof
    fix x assume "x \<in> set circuit"
    then have x: "x < length adj" "adj ! x = []" using cz by auto
    then have "set (adj2 ! x) \<subseteq> {}" using sub[of x] by simp
    then show "x < length adj2 \<and> adj2 ! x = []" using x(1) l2 by simp
  qed
  have par2: "\<forall>x < length adj2. odd (length (adj2 ! x)) \<longleftrightarrow> (x = a) \<noteq> (x = last (stack @ [v]))"
  proof (intro allI impI)
    fix x assume x: "x < length adj2"
    have "size (mset (adj ! x)) = size (mset (adj2 ! x)) + size (edge_nbrs [(u, v)] x)"
      using ms[of x] x l2 by simp
    then have "length (adj ! x) = length (adj2 ! x) + (if u = x then 1 else 0) + (if v = x then 1 else 0)"
      by (simp add: edge_nbrs_single)
    moreover have "odd (length (adj ! x)) \<longleftrightarrow> (x = a) \<noteq> (x = u)"
      using par x l2 by (simp add: u_def)
    ultimately show "odd (length (adj2 ! x)) \<longleftrightarrow> (x = a) \<noteq> (x = last (stack @ [v]))"
      using uv by (cases "x = u"; cases "x = v") auto
  qed
  have acc2: "\<forall>x < length adj2.
           mset (G ! x) =
             mset (adj2 ! x) + edge_nbrs (arcs (stack @ [v])) x + edge_nbrs (arcs (rev circuit)) x +
             edge_nbrs (if circuit = [] \<or> stack @ [v] = [] then [] else [(a, last circuit)]) x"
  proof (intro allI impI)
    fix x assume x: "x < length adj2"
    then have x': "x < length adj" using l2 by simp
    have "arcs (stack @ [v]) = arcs stack @ [(u, v)]"
      using st by (simp add: arcs_snoc u_def)
    then show "mset (G ! x) =
             mset (adj2 ! x) + edge_nbrs (arcs (stack @ [v])) x + edge_nbrs (arcs (rev circuit)) x +
             edge_nbrs (if circuit = [] \<or> stack @ [v] = [] then [] else [(a, last circuit)]) x"
      using acc[rule_format, OF x'] ms[OF x'] st by (simp add: edge_nbrs_append)
  qed
  have hs2: "hd (stack @ [v]) = start" using hs st by simp
  have "hierholzer_inv G start a (adj2, stack @ [v], circuit)"
    unfolding hierholzer_inv_def prod.case
    using len l2 r2 s2 sy2 lf2 cz2 hs2 c0 hc par2 acc2 by simp
  then show ?thesis using vn
    by (simp add: adj2_def adj1_def v_def u_def)
qed

lemma hierholzer_step_inv:
  assumes "hierholzer_inv G start a (adj, stack, circuit)" and "stack \<noteq> []"
  shows "\<exists>a' s'. hierholzer_step (adj, stack, circuit) = Some s' \<and> hierholzer_inv G start a' s'"
proof -
  have "stack_in_range adj stack"
    by (rule hierholzer_invD(3)[OF assms(1)])
  then have un: "last stack < length adj" using assms(2) by (simp add: stack_in_range_def)
  show ?thesis
  proof (cases "adj ! last stack = []")
    case True
    then show ?thesis
      using hierholzer_pop_inv[OF assms True] un by (simp add: hierholzer_step_def)
  next
    case False
    from hierholzer_explore_inv[OF assms False] un False
    show ?thesis by (auto simp add: hierholzer_step_def Let_def)
  qed
qed

lemma hierholzer_loop_inv:
  "hierholzer_inv G start a (adj, stack, circuit) \<Longrightarrow>
     \<exists>c adj' a'. hierholzer_loop (adj, stack, circuit) = Some c \<and>
        hierholzer_inv G start a' (adj', [], c)"
proof (induction "(adj, stack, circuit)" arbitrary: a adj stack circuit
    rule: hierholzer_loop.induct)
  case (1 adj stack circuit)
  show ?case
  proof (cases "stack = []")
    case True
    then show ?thesis using "1.prems" by auto
  next
    case False
    from hierholzer_step_inv[OF "1.prems" False]
    obtain a' adj' stack' circuit' where
      st: "hierholzer_step (adj, stack, circuit) = Some (adj', stack', circuit')"
      and inv: "hierholzer_inv G start a' (adj', stack', circuit')"
      by (metis prod_cases3)
    from "1.hyps"[OF False st inv] show ?thesis
      using False st by simp
  qed
qed

lemma hierholzer_inv_init:
  assumes "adj_in_range G" and "symmetric_adj G" and "\<forall>x < length G. x \<notin> set (G ! x)"
    and "\<forall>x < length G. even (length (G ! x))" and "start < length G"
  shows "hierholzer_inv G start start (G, [start], [])"
  unfolding hierholzer_inv_def prod.case using assms
  by (simp add: stack_in_range_def)

lemma set_arcs: "(a, b) \<in> set (arcs w) \<Longrightarrow> a \<in> set w \<and> b \<in> set w"
proof -
  assume "(a, b) \<in> set (arcs w)"
  then have "a \<in> set w" "b \<in> set (tl w)"
    unfolding arcs_def by (auto dest: set_zip_leftD set_zip_rightD)
  then show ?thesis by (cases w) auto
qed

lemma count_nbrs_fst:
  "count (mset (map snd (filter (\<lambda>e. fst e = x) E))) y = count_list E (x, y)"
  by (induction E) auto

lemma count_nbrs_snd:
  "count (mset (map fst (filter (\<lambda>e. snd e = x) E))) y = count_list E (y, x)"
  by (induction E) auto

lemma count_swap: "count (image_mset prod.swap (mset E)) (x, y) = count_list E (y, x)"
  by (induction E) auto

lemma count_edge_nbrs:
  "count (edge_nbrs E x) y = count (mset E + image_mset prod.swap (mset E)) (x, y)"
  unfolding edge_nbrs_def count_union count_nbrs_fst count_nbrs_snd count_swap
  by (simp only: count_mset)

lemma adj_arcs_Nil [simp]: "adj_arcs [] = []"
  by (simp add: adj_arcs_def)

lemma adj_arcs_snoc: "adj_arcs (adj @ [xs]) = adj_arcs adj @ map (Pair (length adj)) xs"
proof -
  have m: "map (\<lambda>u. map (Pair u) ((adj @ [xs]) ! u)) [0..<length adj] =
        map (\<lambda>u. map (Pair u) (adj ! u)) [0..<length adj]"
    by (simp add: nth_append)
  show ?thesis unfolding adj_arcs_def by (simp add: m)
qed

lemma count_adj_arcs:
  "count_list (adj_arcs adj) (x, y) = (if x < length adj then count_list (adj ! x) y else 0)"
proof (induction adj rule: rev_induct)
  case Nil
  show ?case by simp
next
  case (snoc xs adj)
  have "count_list (map (Pair (length adj)) xs) (x, y) =
        (if x = length adj then count_list xs y else 0)"
    by (induction xs) auto
  then show ?case using snoc
    by (auto simp add: adj_arcs_snoc nth_append)
qed

lemma length_adj_arcs: "length (adj_arcs adj) = sum_list (map length adj)"
  by (induction adj rule: rev_induct) (simp_all add: adj_arcs_snoc)

text \<open>
  On a symmetric multigraph without loops in which every degree is even and every vertex
  can be reached from \<open>start\<close>, the loop returns a closed walk from \<open>start\<close> through
  all vertices whose arcs, read in both directions, are the stored entries.
\<close>

lemma hierholzer_eulerian:
  assumes rng: "adj_in_range G" and sym: "symmetric_adj G"
    and lf: "\<forall>x < length G. x \<notin> set (G ! x)"
    and ev: "\<forall>x < length G. even (length (G ! x))" and st: "start < length G"
    and conn: "\<forall>x < length G. adj_reachable G start x"
  shows "\<exists>W. eulerianTourHierholzer start G = Some W \<and> W \<noteq> [] \<and> hd W = start \<and>
           last W = start \<and> set W = {..<length G} \<and>
           mset (arcs W) + image_mset prod.swap (mset (arcs W)) = mset (adj_arcs G) \<and>
           2 * length (arcs W) = sum_list (map length G)"
proof -
  from hierholzer_loop_inv[OF hierholzer_inv_init[OF rng sym lf ev st]]
  obtain c adj' a' where c: "hierholzer_loop (G, [start], []) = Some c"
    and inv: "hierholzer_inv G start a' (adj', [], c)" by blast
  note D = hierholzer_invD[OF inv]
  define W where "W = rev c"
  have cne: "c \<noteq> []" using D(8) by auto
  have hl: "hd c = start" "last c = start" using D(9,10) cne by simp_all
  have acc: "mset (G ! x) = mset (adj' ! x) + edge_nbrs (arcs W) x" if "x < length G" for x
    using D(12) D(1) that by (simp add: W_def)
  have cz: "x < length G \<and> adj' ! x = []" if "x \<in> set c" for x
    using D(6) D(1) that by simp
  have reach: "x \<in> set c" if "adj_reachable G start x" for x
    using that unfolding adj_reachable_def
  proof (induction rule: rtrancl_induct)
    case base
    show ?case using cne hl(1) by (metis hd_in_set)
  next
    case (step y z)
    then have y: "y < length G" "z \<in> set (G ! y)" "y \<in> set c" by auto
    have "mset (G ! y) = edge_nbrs (arcs W) y"
      using acc[OF y(1)] cz[OF y(3)] by simp
    then have "z \<in># edge_nbrs (arcs W) y" using y(2) by (metis set_mset_mset)
    then have "(y, z) \<in> set (arcs W) \<or> (z, y) \<in> set (arcs W)"
      by (simp add: set_edge_nbrs)
    then have "z \<in> set W" using set_arcs by blast
    then show ?case by (simp add: W_def)
  qed
  have allc: "x \<in> set c" if "x < length G" for x
    using conn that reach by blast
  have setW: "set W = {..<length G}"
    using allc cz by (auto simp: W_def)
  have nb: "mset (G ! x) = edge_nbrs (arcs W) x" if "x < length G" for x
    using acc[OF that] cz[OF allc[OF that]] by simp
  have arcsW: "mset (arcs W) + image_mset prod.swap (mset (arcs W)) = mset (adj_arcs G)"
  proof (rule multiset_eqI)
    fix e :: "nat \<times> nat"
    obtain x y where e: "e = (x, y)" by (cases e)
    show "count (mset (arcs W) + image_mset prod.swap (mset (arcs W))) e =
          count (mset (adj_arcs G)) e"
    proof (cases "x < length G")
      case True
      have "count (mset (adj_arcs G)) (x, y) = count (mset (G ! x)) y"
        using True by (simp add: count_mset count_adj_arcs)
      also have "\<dots> = count (edge_nbrs (arcs W) x) y" by (simp only: nb[OF True])
      finally show ?thesis by (simp only: e count_edge_nbrs)
    next
      case False
      then have "x \<notin> set W" using setW by auto
      then have "(x, y) \<notin> set (arcs W)" "(y, x) \<notin> set (arcs W)"
        using set_arcs by blast+
      then have "y \<notin># edge_nbrs (arcs W) x" by (simp add: set_edge_nbrs)
      then have "count (edge_nbrs (arcs W) x) y = 0" by (simp add: not_in_iff)
      moreover have "count (mset (adj_arcs G)) (x, y) = 0"
        using False by (simp add: count_mset count_adj_arcs)
      ultimately show ?thesis by (simp only: e count_edge_nbrs[symmetric])
    qed
  qed
  have "size (mset (arcs W) + image_mset prod.swap (mset (arcs W))) = size (mset (adj_arcs G))"
    by (simp only: arcsW)
  then have len: "2 * length (arcs W) = sum_list (map length G)"
    by (simp add: length_adj_arcs)
  have "eulerianTourHierholzer start G = Some W"
    using c by (simp add: eulerianTourHierholzer_def W_def)
  moreover have "W \<noteq> []" "hd W = start" "last W = start"
    using cne hl by (simp_all add: W_def hd_rev last_rev)
  ultimately show ?thesis using setW arcsW len by blast
qed

subsection \<open>The multigraph of the pipeline\<close>

lemma primMST_tree:
  assumes "0 < length d"
  shows "\<exists>parent. primMST d = Some parent \<and> length parent = length d \<and> parent ! 0 = - 1 \<and>
           (\<exists>r :: nat \<Rightarrow> nat. \<forall>v. 0 < v \<and> v < length d \<longrightarrow>
                0 \<le> parent ! v \<and> nat (parent ! v) < length d \<and> r (nat (parent ! v)) < r v)"
proof -
  let ?n = "length d"
  obtain s where s: "prim_loop d ?n ?n (prim_init ?n) = Some s" "prim_inv d ?n ?n s"
    using prim_loop_from_init[OF assms, of ?n d] by auto
  obtain key parent inMST where sk: "s = (key, parent, inMST)" by (cases s)
  note fin = prim_inv_final[OF s(2)[unfolded sk] assms]
  obtain r :: "nat \<Rightarrow> nat" where r: "\<forall>v. 0 < v \<and> v < ?n \<longrightarrow> r (nat (parent ! v)) < r v"
    using fin(5) by blast
  have "\<forall>v. 0 < v \<and> v < ?n \<longrightarrow>
          0 \<le> parent ! v \<and> nat (parent ! v) < ?n \<and> r (nat (parent ! v)) < r v"
    using fin(4) r by blast
  then have "\<exists>r :: nat \<Rightarrow> nat. \<forall>v. 0 < v \<and> v < ?n \<longrightarrow>
          0 \<le> parent ! v \<and> nat (parent ! v) < ?n \<and> r (nat (parent ! v)) < r v"
    by blast
  moreover have "primMST d = Some parent"
    using s(1) assms by (simp add: primMST_def sk)
  ultimately show ?thesis using fin(1,2) by blast
qed

lemma sum_length_push_edge:
  assumes "u < length adj" and "v < length adj"
  shows "sum_list (map length (push_edge adj (u, v))) = sum_list (map length adj) + 2"
proof -
  define adj1 where "adj1 = adj[u := adj ! u @ [v]]"
  have v1: "v < length adj1" using assms(2) by (simp add: adj1_def)
  have "sum_list (map length adj1) = sum_list (map length adj) + 1"
    using sum_length_update[OF assms(1), of "adj ! u @ [v]"] by (simp add: adj1_def)
  moreover have "sum_list (map length (adj1[v := adj1 ! v @ [u]])) = sum_list (map length adj1) + 1"
    using sum_length_update[OF v1, of "adj1 ! v @ [u]"] by simp
  ultimately show ?thesis by (simp add: push_edge_def Let_def adj1_def)
qed

lemma sum_length_add_edges:
  assumes "\<forall>(u, v) \<in> set E. u < length adj \<and> v < length adj"
  shows "sum_list (map length (add_edges adj E)) = sum_list (map length adj) + 2 * length E"
  using assms
proof (induction E arbitrary: adj)
  case Nil
  show ?case by simp
next
  case (Cons e E)
  obtain u v where e: "e = (u, v)" by (cases e)
  have uv: "u < length adj" "v < length adj" using Cons.prems e by auto
  have "\<forall>(u, v) \<in> set E. u < length (push_edge adj e) \<and> v < length (push_edge adj e)"
    using Cons.prems by simp
  from Cons.IH[OF this] sum_length_push_edge[OF uv]
  show ?case by (simp add: add_edges_Cons e)
qed

lemma graph_of_edges:
  assumes E: "\<forall>(u, v) \<in> set E. u < n \<and> v < n \<and> u \<noteq> v"
  defines "G \<equiv> add_edges (replicate n []) E"
  shows "length G = n" and "\<And>x. x < n \<Longrightarrow> mset (G ! x) = edge_nbrs E x"
    and "adj_in_range G" and "symmetric_adj G" and "\<forall>x < length G. x \<notin> set (G ! x)"
    and "sum_list (map length G) = 2 * length E"
proof -
  show len: "length G = n" by (simp add: G_def)
  have E': "\<forall>(u, v) \<in> set E. u < length (replicate n ([] :: nat list)) \<and>
              v < length (replicate n ([] :: nat list))"
    using E by auto
  show nb: "mset (G ! x) = edge_nbrs E x" if "x < n" for x
    using add_edges_nth[OF E', of x] that by (simp add: G_def)
  have mem: "(x, w) \<in> set E \<or> (w, x) \<in> set E" if "x < n" "w \<in> set (G ! x)" for x w
  proof -
    have "w \<in># mset (G ! x)" using that(2) by simp
    then show ?thesis unfolding nb[OF that(1)] by (simp add: set_edge_nbrs)
  qed
  show "adj_in_range G"
    unfolding adj_in_range_def
  proof (intro ballI)
    fix xs w assume "xs \<in> set G" "w \<in> set xs"
    then obtain x where "x < n" "w \<in> set (G ! x)" using len by (metis in_set_conv_nth)
    from mem[OF this] E show "w < length G" using len by auto
  qed
  show "symmetric_adj G"
    unfolding symmetric_adj_def
  proof (intro allI impI)
    fix x y assume "x < length G" "y < length G"
    then have xy: "x < n" "y < n" using len by simp_all
    have "count_list (G ! x) y = count (edge_nbrs E x) y"
      using nb[OF xy(1)] by (metis count_mset)
    moreover have "count_list (G ! y) x = count (edge_nbrs E y) x"
      using nb[OF xy(2)] by (metis count_mset)
    moreover have "count (edge_nbrs E x) y = count (edge_nbrs E y) x"
      by (simp add: count_edge_nbrs count_swap count_mset)
    ultimately show "count_list (G ! x) y = count_list (G ! y) x" by simp
  qed
  show "\<forall>x < length G. x \<notin> set (G ! x)"
    using mem E len by fastforce
  show "sum_list (map length G) = 2 * length E"
    using sum_length_add_edges[OF E'] by (simp add: G_def sum_list_replicate)
qed

lemma set_tree_edge_list: "set (tree_edge_list parent) = tree_edges parent"
  by (simp add: tree_edge_list_def tree_edges_def)

text \<open>
  What the first four stages hand to \<open>eulerianTourHierholzer\<close>: a symmetric multigraph
  without loops, of even degree everywhere, in which every vertex can be reached from
  vertex 0, with \<open>n - 1\<close> tree edges and one matching edge for every two odd vertices.
\<close>

lemma christofides_multigraph:
  assumes n: "0 < length d"
  shows "\<exists>parent adj adj'.
           primMST d = Some parent \<and> buildAdjFromParent parent = Some adj \<and>
           addGreedyPerfectMatching (findOddDegreeVertices adj) d adj = Some adj' \<and>
           length adj' = length d \<and> adj_in_range adj' \<and> symmetric_adj adj' \<and>
           (\<forall>x < length adj'. x \<notin> set (adj' ! x)) \<and>
           (\<forall>x < length adj'. even (length (adj' ! x))) \<and>
           (\<forall>x < length adj'. adj_reachable adj' 0 x) \<and>
           even (length (findOddDegreeVertices adj)) \<and>
           sum_list (map length adj') =
             2 * (length d - 1) + length (findOddDegreeVertices adj)"
proof -
  let ?n = "length d"
  from primMST_tree[OF n] obtain parent and r :: "nat \<Rightarrow> nat" where
    p: "primMST d = Some parent" "length parent = ?n" "parent ! 0 = - 1"
    and pr: "\<And>v. 0 < v \<Longrightarrow> v < ?n \<Longrightarrow>
               0 \<le> parent ! v \<and> nat (parent ! v) < ?n \<and> r (nat (parent ! v)) < r v"
    by blast
  define Et where "Et = tree_edge_list parent"
  define adj where "adj = add_edges (replicate ?n []) Et"
  have inr: "\<forall>v. 1 \<le> v \<and> v < length parent \<longrightarrow> 0 \<le> parent ! v \<and> parent ! v < int (length parent)"
  proof (intro allI impI)
    fix v assume "1 \<le> v \<and> v < length parent"
    then have "0 \<le> parent ! v" "nat (parent ! v) < ?n" using pr[of v] p(2) by simp_all
    then show "0 \<le> parent ! v \<and> parent ! v < int (length parent)" using p(2) by linarith
  qed
  have b: "buildAdjFromParent parent = Some adj"
    unfolding buildAdjFromParent_eq adj_def Et_def using inr p(2) by simp
  have st: "spanning_tree ?n (tree_edges parent)"
    using p(2) n
  proof (rule rank_spanning_tree[where r = r])
    fix v assume "0 < v" "v < ?n"
    then show "nat (parent ! v) < ?n \<and> r (nat (parent ! v)) < r v" using pr[of v] by simp
  qed
  have Et: "\<forall>(u, v) \<in> set Et. u < ?n \<and> v < ?n \<and> u \<noteq> v"
  proof -
    have "u < ?n \<and> v < ?n \<and> u \<noteq> v" if "(u, v) \<in> set Et" for u v
    proof -
      from that have "1 \<le> u" "u < ?n" "v = nat (parent ! u)"
        by (simp_all add: Et_def set_tree_edge_list tree_edges_iff p(2))
      then show ?thesis using pr[of u] by auto
    qed
    then show ?thesis by blast
  qed
  have la: "length adj = ?n" by (simp add: adj_def)
  define odds where "odds = findOddDegreeVertices adj"
  have "even (sum_list (map length adj))"
    using buildAdjFromParent_sum(2)[OF b] by simp
  then have ev: "even (length odds)" by (simp add: odds_def findOdd_parity)
  from greedy_matching[OF odds_def ev, of d]
  obtain pairs where m: "addGreedyPerfectMatching odds d adj = Some (add_edges adj pairs)"
    and pr2: "\<forall>(a, b) \<in> set pairs. a < length adj \<and> b < length adj \<and> a \<noteq> b"
    and sz: "2 * length pairs = length odds"
    and ev2: "\<forall>v < length adj. even (length (add_edges adj pairs ! v))"
    by blast
  define adj' where "adj' = add_edges adj pairs"
  have adj': "adj' = add_edges (replicate ?n []) (Et @ pairs)"
    by (simp add: adj'_def adj_def add_edges_append)
  have E: "\<forall>(u, v) \<in> set (Et @ pairs). u < ?n \<and> v < ?n \<and> u \<noteq> v"
    using Et pr2 la by auto
  note G = graph_of_edges[OF E, folded adj']
  have reach: "adj_reachable adj' 0 x" if "x < length adj'" for x
  proof -
    have x: "x < ?n" using that G(1) by simp
    have "(0, x) \<in> (und (tree_edges parent))\<^sup>*"
      using st n x by (simp add: spanning_tree_def connected_graph_def)
    moreover have "und (tree_edges parent) \<subseteq> {(u, v). u < length adj' \<and> v \<in> set (adj' ! u)}"
    proof
      fix e assume e: "e \<in> und (tree_edges parent)"
      obtain u v where uv: "e = (u, v)" by (cases e)
      from e have "(u, v) \<in> set Et \<or> (v, u) \<in> set Et"
        by (auto simp: uv und_def Et_def set_tree_edge_list)
      then have in': "(u, v) \<in> set (Et @ pairs) \<or> (v, u) \<in> set (Et @ pairs)" by auto
      then have u: "u < ?n" using E by auto
      have "v \<in># edge_nbrs (Et @ pairs) u" using in' by (simp only: set_edge_nbrs)
      then have "v \<in> set (adj' ! u)" using G(2)[OF u] by (metis set_mset_mset)
      then show "e \<in> {(u, v). u < length adj' \<and> v \<in> set (adj' ! u)}"
        using u G(1) by (simp add: uv)
    qed
    ultimately show ?thesis
      unfolding adj_reachable_def using rtrancl_mono by blast
  qed
  have sum: "sum_list (map length adj') = 2 * (?n - 1) + length odds"
  proof -
    have "length Et = ?n - 1" by (simp add: Et_def tree_edge_list_def p(2))
    then show ?thesis using G(6) sz by simp
  qed
  have ev': "\<forall>x < length adj'. even (length (adj' ! x))"
    using ev2 la G(1) by (simp add: adj'_def)
  show ?thesis
    using p(1) b m[folded adj'_def] G(1,3,4,5) ev' reach ev sum
    unfolding odds_def by blast
qed


lemma christofides_euler:
  assumes n: "0 < length d"
  shows "\<exists>parent adj adj' W.
           primMST d = Some parent \<and> buildAdjFromParent parent = Some adj \<and>
           addGreedyPerfectMatching (findOddDegreeVertices adj) d adj = Some adj' \<and>
           eulerianTourHierholzer 0 adj' = Some W \<and> W \<noteq> [] \<and> hd W = 0 \<and> last W = 0 \<and>
           set W = {..<length d} \<and>
           mset (arcs W) + image_mset prod.swap (mset (arcs W)) = mset (adj_arcs adj') \<and>
           length (arcs W) = (length d - 1) + length (findOddDegreeVertices adj) div 2"
proof -
  from christofides_multigraph[OF n]
  obtain parent adj adj' where g:
    "primMST d = Some parent" "buildAdjFromParent parent = Some adj"
    "addGreedyPerfectMatching (findOddDegreeVertices adj) d adj = Some adj'"
    "length adj' = length d" "adj_in_range adj'" "symmetric_adj adj'"
    "\<forall>x < length adj'. x \<notin> set (adj' ! x)" "\<forall>x < length adj'. even (length (adj' ! x))"
    "\<forall>x < length adj'. adj_reachable adj' 0 x" "even (length (findOddDegreeVertices adj))"
    "sum_list (map length adj') = 2 * (length d - 1) + length (findOddDegreeVertices adj)"
    by blast
  have s0: "0 < length adj'" using n g(4) by simp
  from hierholzer_eulerian[OF g(5,6,7,8) s0 g(9)]
  obtain W where W: "eulerianTourHierholzer 0 adj' = Some W" "W \<noteq> []" "hd W = 0" "last W = 0"
    "set W = {..<length adj'}"
    "mset (arcs W) + image_mset prod.swap (mset (arcs W)) = mset (adj_arcs adj')"
    "2 * length (arcs W) = sum_list (map length adj')"
    by blast
  have "2 * length (arcs W) = 2 * (length d - 1) + length (findOddDegreeVertices adj)"
    using W(7) g(11) by simp
  then have "length (arcs W) = (length d - 1) + length (findOddDegreeVertices adj) div 2"
    using g(10) by (elim evenE) simp
  then show ?thesis using g(1,2,3) W(1-6) g(4) by auto
qed

text \<open>
  Claim C4. Let \<open>adj'\<close> be the multigraph that the pipeline builds for an \<open>n \<times> n\<close>
  matrix: the \<open>n - 1\<close> edges of the spanning tree plus the matching edges. Then
  \<open>eulerianTourHierholzer 0 adj'\<close> returns a walk \<open>W\<close> that begins and ends at vertex 0
  and visits every vertex. Its consecutive pairs traverse every edge instance exactly
  once: taken in both directions they are, as multisets, the stored entries of \<open>adj'\<close>
  (where every edge instance is stored once at each endpoint). The number of edges of
  \<open>W\<close> is \<open>n - 1\<close> plus the number of matching pairs, which is half the number of
  odd-degree vertices of the tree.
\<close>

theorem C4_eulerian_circuit:
  assumes "square_matrix n d" and "0 < n" and "primMST d = Some parent"
    and "buildAdjFromParent parent = Some adj"
    and "addGreedyPerfectMatching (findOddDegreeVertices adj) d adj = Some adj'"
  shows "\<exists>W. eulerianTourHierholzer 0 adj' = Some W \<and> W \<noteq> [] \<and> hd W = 0 \<and> last W = 0 \<and>
           set W = {..<n} \<and>
           mset (arcs W) + image_mset prod.swap (mset (arcs W)) = mset (adj_arcs adj') \<and>
           length (arcs W) = (n - 1) + length (findOddDegreeVertices adj) div 2"
proof -
  have len: "length d = n" using assms(1) by (simp add: square_matrix_def)
  from christofides_euler[of d] assms(2) len
  obtain parent0 adj0 adj0' W where e:
    "primMST d = Some parent0" "buildAdjFromParent parent0 = Some adj0"
    "addGreedyPerfectMatching (findOddDegreeVertices adj0) d adj0 = Some adj0'"
    "eulerianTourHierholzer 0 adj0' = Some W" "W \<noteq> []" "hd W = 0" "last W = 0"
    "set W = {..<n}"
    "mset (arcs W) + image_mset prod.swap (mset (arcs W)) = mset (adj_arcs adj0')"
    "length (arcs W) = (n - 1) + length (findOddDegreeVertices adj0) div 2"
    by auto
  have "parent0 = parent" using e(1) assms(3) by simp
  then have "adj0 = adj" using e(2) assms(4) by simp
  then have "adj0' = adj'" using e(3) assms(5) by simp
  then show ?thesis using e \<open>adj0 = adj\<close> by blast
qed

theorem C4_witness:
  "eulerianTourHierholzer 0 [[1, 3], [0, 2], [1, 3], [0, 2]] = Some [0, 3, 2, 1, 0] \<and>
   mset (arcs [0, 3, 2, 1, 0]) + image_mset prod.swap (mset (arcs [0, 3, 2, 1, 0])) =
     mset (adj_arcs [[1, 3], [0, 2], [1, 3], [0, 2]]) \<and>
   length (arcs [0, 3, 2, 1, 0]) = (4 - 1) + length [2 :: nat, 3] div 2"
proof -
  have sq: "square_matrix 4 unit_square_matrix"
    by (simp add: square_matrix_def unit_square_matrix_def)
  have m: "addGreedyPerfectMatching (findOddDegreeVertices [[1, 3], [0, 2], [1], [0]])
      unit_square_matrix [[1, 3], [0, 2], [1], [0]] = Some [[1, 3], [0, 2], [1, 3], [0, 2]]"
    using matching_unit_square findOdd_unit_square by simp
  from C4_eulerian_circuit[OF sq _ primMST_unit_square buildAdj_unit_square m]
  obtain W where W: "eulerianTourHierholzer 0 [[1, 3], [0, 2], [1, 3], [0, 2]] = Some W"
    "mset (arcs W) + image_mset prod.swap (mset (arcs W)) =
       mset (adj_arcs [[1, 3], [0, 2], [1, 3], [0, 2]])"
    "length (arcs W) = (4 - 1) + length (findOddDegreeVertices [[1, 3], [0, 2], [1], [0]]) div 2"
    by auto
  have "W = [0, 3, 2, 1, 0]" using W(1) euler_unit_square by simp
  then show ?thesis using W euler_unit_square findOdd_unit_square by simp
qed

subsection \<open>The shortcut loop\<close>

lemma set_first_visits: "set (first_visits V xs) = set xs - V"
  by (induction xs arbitrary: V) auto

lemma distinct_first_visits: "distinct (first_visits V xs)"
  by (induction xs arbitrary: V) (auto simp: set_first_visits)

lemma shortcut_loop:
  assumes "\<forall>v \<in> set W. v < length visited"
  shows "\<exists>visited'. fold_opt shortcut_step W (visited, tour) =
           Some (visited', tour @ first_visits {v. v < length visited \<and> visited ! v} W)"
  using assms
proof (induction W arbitrary: visited tour)
  case Nil
  show ?case by simp
next
  case (Cons x W)
  have x: "x < length visited" using Cons.prems by simp
  show ?case
  proof (cases "visited ! x")
    case True
    then have "shortcut_step x (visited, tour) = Some (visited, tour)"
      using x by (simp add: shortcut_step_def)
    moreover have "x \<in> {v. v < length visited \<and> visited ! v}" using x True by simp
    ultimately show ?thesis using Cons.IH[of visited tour] Cons.prems by simp
  next
    case False
    have st: "shortcut_step x (visited, tour) = Some (visited[x := True], tour @ [x])"
      using x False by (simp add: shortcut_step_def)
    have V: "{v. v < length visited \<and> visited[x := True] ! v} =
             insert x {v. v < length visited \<and> visited ! v}"
      using x by (auto simp: nth_list_update)
    have "x \<notin> {v. v < length visited \<and> visited ! v}" using False by simp
    then show ?thesis
      using Cons.IH[of "visited[x := True]" "tour @ [x]"] Cons.prems st
      by (simp add: V)
  qed
qed

lemma shortcutTour_eq:
  assumes "\<forall>v \<in> set W. v < n"
  shows "shortcutTour n W = Some (rotate_to_zero (first_visits {} W) @ [0])"
proof -
  have "{v. v < n \<and> replicate n False ! v} = {}" by auto
  with shortcut_loop[of W "replicate n False" "[]"] assms
  obtain visited' where
    "fold_opt shortcut_step W (replicate n False, []) = Some (visited', first_visits {} W)"
    by auto
  then show ?thesis by (simp add: shortcutTour_def)
qed

lemma rotate_to_zero_hd: "xs \<noteq> [] \<Longrightarrow> hd xs = 0 \<Longrightarrow> rotate_to_zero xs = xs"
  by (cases xs) (simp_all add: rotate_to_zero_def)

lemma christofidesTour_wellformed:
  assumes n: "0 < length d"
  shows "\<exists>tour. christofidesTour d = Some tour \<and> length tour = length d + 1 \<and>
           distinct (take (length d) tour) \<and> set (take (length d) tour) = {..<length d} \<and>
           hd tour = 0 \<and> last tour = 0"
proof -
  let ?n = "length d"
  from christofides_euler[OF n]
  obtain parent adj adj' W where e:
    "primMST d = Some parent" "buildAdjFromParent parent = Some adj"
    "addGreedyPerfectMatching (findOddDegreeVertices adj) d adj = Some adj'"
    "eulerianTourHierholzer 0 adj' = Some W" "W \<noteq> []" "hd W = 0" "set W = {..<?n}"
    by blast
  define D where "D = first_visits {} W"
  have "\<forall>v \<in> set W. v < ?n" using e(7) by simp
  then have sc: "shortcutTour ?n W = Some (rotate_to_zero D @ [0])"
    unfolding D_def by (rule shortcutTour_eq)
  obtain w ws where W: "W = w # ws" using e(5) by (cases W) auto
  then have w: "w = 0" using e(6) by simp
  have D: "D \<noteq> []" "hd D = 0" by (simp_all add: D_def W w)
  have setD: "set D = {..<?n}" by (simp add: D_def set_first_visits e(7))
  have distD: "distinct D" by (simp add: D_def distinct_first_visits)
  have "length D = card (set D)" using distD by (simp add: distinct_card)
  then have lenD: "length D = ?n" by (simp add: setD)
  have rot: "rotate_to_zero D = D" using D by (rule rotate_to_zero_hd)
  have "christofidesTour d = Some (D @ [0])"
    using e(1-4) sc rot by (simp add: christofidesTour_def)
  moreover have "hd (D @ [0]) = 0" using D by simp
  ultimately show ?thesis using lenD distD setD by simp
qed




subsection \<open>Shortcutting does not lengthen the tour\<close>












subsection \<open>The matrix of Euclidean distances\<close>

lemma buildDistanceMatrix_nth:
  "i < length pts \<Longrightarrow> j < length pts \<Longrightarrow>
     buildDistanceMatrix pts ! i ! j = distEuclid (pts ! i) (pts ! j)"
  by (simp add: buildDistanceMatrix_def Let_def)

lemma buildDistanceMatrix_square: "square_matrix (length pts) (buildDistanceMatrix pts)"
  by (auto simp: buildDistanceMatrix_def square_matrix_def Let_def)

lemma distEuclid_cmod:
  "distEuclid a b = cmod (Complex (px a) (py a) - Complex (px b) (py b))"
  by (simp add: distEuclid_def cmod_def power2_eq_square Let_def)

lemma buildDistanceMatrix_symmetric:
  "symmetric_matrix (length pts) (buildDistanceMatrix pts)"
  by (simp add: symmetric_matrix_def buildDistanceMatrix_nth distEuclid_cmod norm_minus_commute)

lemma buildDistanceMatrix_zero_diagonal:
  "zero_diagonal (length pts) (buildDistanceMatrix pts)"
  by (simp add: zero_diagonal_def buildDistanceMatrix_nth distEuclid_cmod)

lemma buildDistanceMatrix_triangle:
  "triangle_inequality (length pts) (buildDistanceMatrix pts)"
proof -
  have "cmod (a - c) \<le> cmod (a - b) + cmod (b - c)" for a b c :: complex
    using norm_triangle_ineq[of "a - b" "b - c"] by simp
  then show ?thesis
    by (simp add: triangle_inequality_def buildDistanceMatrix_nth distEuclid_cmod)
qed

text \<open>
  So the matrix of any list of points meets the hypotheses of the theorems above, and
  the program is defined on every command line and every file.
\<close>

lemma christofidesTour_of_points:
  assumes "2 \<le> length pts"
  shows "\<exists>tour. christofidesTour (buildDistanceMatrix pts) = Some tour \<and>
           length tour = length pts + 1 \<and> distinct (take (length pts) tour) \<and>
           set (take (length pts) tour) = {..<length pts} \<and> hd tour = 0 \<and> last tour = 0"
proof -
  have len: "length (buildDistanceMatrix pts) = length pts"
    using buildDistanceMatrix_square[of pts] by (simp add: square_matrix_def)
  have "0 < length pts" using assms by linarith
  then have "0 < length (buildDistanceMatrix pts)" by (simp only: len)
  from christofidesTour_wellformed[OF this] show ?thesis unfolding len .
qed

lemma main_defined: "\<exists>out. main args fs = Some out"
proof (cases "length args < 2")
  case True
  then show ?thesis by (simp add: main_def)
next
  case False
  obtain ok points where l: "loadPoints fs (args ! 1) [] = (ok, points)"
    by (cases "loadPoints fs (args ! 1) []") auto
  show ?thesis
  proof (cases "ok \<and> length points \<noteq> 1")
    case True
    then have "points \<noteq> []"
      using l by (auto simp: loadPoints_def split: option.splits)
    then have "2 \<le> length points" using True by (cases points) (auto simp: Suc_le_eq)
    from christofidesTour_of_points[OF this]
    obtain tour where "christofidesTour (buildDistanceMatrix points) = Some tour" by blast
    then show ?thesis using False True l by (simp add: main_def Let_def)
  next
    case False2: False
    then show ?thesis using False l by (auto simp: main_def Let_def)
  qed
qed

end
